theory Spec2Isabelle
  imports Main "HOL-Library.Word"
begin

unbundle bit_operations_syntax

section \<open>Machine types and failures\<close>

text \<open>
  The runtime is modelled for an LP64 target: \<open>size_t\<close> and \<open>uintptr_t\<close> are 64-bit
  words whose arithmetic wraps around, and the null pointer is the address \<open>0\<close>.
\<close>

type_synonym size_t = "64 word"
type_synonym addr = "64 word"

text \<open>
  Everything that ends or blocks an execution is a value of \<open>error\<close>:
  \<^item> \<open>OutOfMemory\<close>: the \<open>konan::abort()\<close> after the out-of-memory message of \<open>Node::Create\<close>;
  \<^item> \<open>RuntimeAssertFailed msg\<close>: a \<open>RuntimeAssert\<close> whose condition is false;
  \<^item> \<open>InvalidMemoryAccess\<close>: a read or write through a null or dangling pointer
    (undefined behaviour in C++);
  \<^item> \<open>SignedOverflow\<close>: an operation on a signed integer whose result its type cannot
    hold (undefined behaviour in C++);
  \<^item> \<open>SpinLockBusy\<close>: \<open>lock()\<close> on a spin lock that is held (the caller would spin);
  \<^item> \<open>NoIterable\<close>: an operation of \<open>Iterable\<close> although no \<open>Iterable\<close> is alive
    (the C++ types exclude it).
\<close>

datatype error =
    OutOfMemory
  | RuntimeAssertFailed String.literal
  | InvalidMemoryAccess
  | SignedOverflow
  | SpinLockBusy
  | NoIterable

definition and_then :: "'failure + 'a \<Rightarrow> ('a \<Rightarrow> 'failure + 'b) \<Rightarrow> 'failure + 'b" where
  "and_then r f = (case r of Inl e \<Rightarrow> Inl e | Inr x \<Rightarrow> f x)"

text \<open>
  Modelled from the spec: the macro \<open>RuntimeAssert\<close> (KAssert.h is not among the sources).
  Section 7 of the specification makes every assertion failure terminal, so a false
  condition ends the execution with the assertion's message.
\<close>

definition RuntimeAssert :: "bool \<Rightarrow> String.literal \<Rightarrow> error + unit" where
  "RuntimeAssert condition msg = (if condition then Inr () else Inl (RuntimeAssertFailed msg))"


section \<open>Alignment.hpp\<close>

text \<open>
  Modelled from the spec: \<open>IsValidAlignment\<close>, \<open>AlignUp\<close> and \<open>IsAligned\<close> (Alignment.hpp is
  not among the sources). An alignment is valid when it is a power of two; \<open>AlignUp\<close>
  rounds a size up to the next multiple of the alignment, computed in \<open>size_t\<close>;
  a pointer is aligned when its address is a multiple of the alignment.
\<close>

definition IsValidAlignment :: "size_t \<Rightarrow> bool" where
  "IsValidAlignment alignment = (alignment \<in> (\<lambda>k. 2 ^ k) ` {0..<64})"

definition AlignUp :: "size_t \<Rightarrow> size_t \<Rightarrow> size_t" where
  "AlignUp sz alignment = ((sz + alignment - 1) div alignment) * alignment"

definition IsAligned :: "addr \<Rightarrow> size_t \<Rightarrow> bool" where
  "IsAligned ptr alignment = (ptr mod alignment = 0)"

text \<open>Rounding up on the natural numbers, the reading of \<open>alignUp\<close> in the specification.\<close>

definition round_up :: "nat \<Rightarrow> nat \<Rightarrow> nat" where
  "round_up n a = ((n + a - 1) div a) * a"


section \<open>ObjectFactoryStorage: nodes\<close>

text \<open>
  \<open>sizeof(Node)\<close> and \<open>alignof(Node)\<close> depend on the target, and \<open>DataAlignment\<close> is the
  template parameter of \<open>ObjectFactoryStorage\<close>; the three are parameters of the model.
\<close>

record storage_layout =
  sizeof_Node :: size_t
  alignof_Node :: size_t
  DataAlignment :: size_t

text \<open>
  The \<open>static_assert\<close> of the class on \<open>DataAlignment\<close>, and the fact that every
  \<open>alignof\<close> of C++ is a power of two.
\<close>

definition valid_layout :: "'a storage_layout_scheme \<Rightarrow> bool" where
  "valid_layout cfg = (IsValidAlignment (DataAlignment cfg) \<and> IsValidAlignment (alignof_Node cfg))"

definition DataOffset :: "'a storage_layout_scheme \<Rightarrow> size_t" where
  "DataOffset cfg = AlignUp (sizeof_Node cfg) (DataAlignment cfg)"

definition GetSizeAndAlignmentForDataSize :: "'a storage_layout_scheme \<Rightarrow> size_t \<Rightarrow> size_t \<times> size_t" where
  "GetSizeAndAlignmentForDataSize cfg dataSize =
     (let dataSizeAligned = AlignUp dataSize (DataAlignment cfg);
          totalAlignment = max (alignof_Node cfg) (DataAlignment cfg);
          totalSize = AlignUp (sizeof_Node cfg + dataSizeAligned) totalAlignment
      in (totalSize, totalAlignment))"

text \<open>\<open>Node::Data()\<close>, applied to the address of the node.\<close>

definition Data :: "'a storage_layout_scheme \<Rightarrow> addr \<Rightarrow> error + addr" where
  "Data cfg this =
     (let ptr = this + DataOffset cfg
      in and_then (RuntimeAssert (IsAligned ptr (DataAlignment cfg)) STR ''Data=%p is not aligned to %zu'')
           (\<lambda>_. Inr ptr))"

definition FromData :: "'a storage_layout_scheme \<Rightarrow> addr \<Rightarrow> error + addr" where
  "FromData cfg data =
     (let node = data - DataOffset cfg
      in and_then (Data cfg node) (\<lambda>d.
         and_then (RuntimeAssert (d = data) STR ''Node layout has broken'') (\<lambda>_.
         Inr node)))"

text \<open>
  The size computation of \<open>GetSizeAndAlignmentForDataSize\<close> stays below \<open>2 ^ 64\<close>: neither
  of its two roundings nor its addition wraps around.
\<close>

definition size_fits :: "'a storage_layout_scheme \<Rightarrow> size_t \<Rightarrow> bool" where
  "size_fits cfg dataSize =
     (unat dataSize + unat (DataAlignment cfg) \<le> 2 ^ 64 \<and>
      unat (sizeof_Node cfg) + unat (AlignUp dataSize (DataAlignment cfg))
        + unat (max (alignof_Node cfg) (DataAlignment cfg)) \<le> 2 ^ 64)"


text \<open>The layout of a 64-bit target with \<open>kObjectAlignment = 8\<close>: a node is one pointer.\<close>

definition lp64_layout :: storage_layout where
  "lp64_layout = \<lparr>sizeof_Node = 8, alignof_Node = 8, DataAlignment = 8\<rparr>"


section \<open>The allocator and the node heap\<close>

text \<open>
  Modelled from the spec: the allocator (the template parameter \<open>Allocator\<close>; Alloc.h is
  not among the sources), with the contract of section 6 of the specification:
  \<open>alloc(size, align) \<rightarrow> pointer | null\<close>, \<open>Must honor alignment; failure is reported by null\<close>.
  An allocator is the list of the blocks it is going to offer, together with the log of
  the requests it has received. It honours the alignment: a block that does not have
  the alignment requested is not handed out, and the answer is null. An exhausted
  allocator answers null. So every answer is null or a pointer of the alignment
  requested, and every such answer is the answer of some allocator.
\<close>

record Allocator =
  responses :: "addr list"
  requests :: "(size_t \<times> size_t) list"

definition Alloc :: "Allocator \<Rightarrow> size_t \<Rightarrow> size_t \<Rightarrow> addr \<times> Allocator" where
  "Alloc allocator sz alignment =
     (case responses allocator of
        [] \<Rightarrow> (0, allocator\<lparr>requests := requests allocator @ [(sz, alignment)]\<rparr>)
      | ptr # rest \<Rightarrow>
          (if IsAligned ptr alignment then ptr else 0,
           allocator\<lparr>responses := rest, requests := requests allocator @ [(sz, alignment)]\<rparr>))"

text \<open>
  The node heap holds the field \<open>next_\<close> of every live \<open>Node\<close>, by address.
  An address outside its domain is not a live node.
\<close>

type_synonym node_heap = "addr \<rightharpoonup> addr"

definition get_next :: "node_heap \<Rightarrow> addr \<Rightarrow> error + addr" where
  "get_next h node =
     (if node = 0 then Inl InvalidMemoryAccess
      else case h node of None \<Rightarrow> Inl InvalidMemoryAccess | Some n \<Rightarrow> Inr n)"

definition set_next :: "node_heap \<Rightarrow> addr \<Rightarrow> addr \<Rightarrow> error + node_heap" where
  "set_next h node v =
     (if node = 0 then Inl InvalidMemoryAccess
      else case h node of None \<Rightarrow> Inl InvalidMemoryAccess | Some _ \<Rightarrow> Inr (h(node \<mapsto> v)))"

text \<open>
  \<open>Node::Create\<close>. The placement \<open>new (ptr) Node()\<close> writes a null \<open>next_\<close> at the address
  the allocator returned, whatever was there.
\<close>

definition Node_Create ::
  "'a storage_layout_scheme \<Rightarrow> Allocator \<Rightarrow> size_t \<Rightarrow> node_heap \<Rightarrow> error + (addr \<times> Allocator \<times> node_heap)" where
  "Node_Create cfg allocator dataSize h =
     (case GetSizeAndAlignmentForDataSize cfg dataSize of (totalSize, totalAlignment) \<Rightarrow>
        and_then (RuntimeAssert (DataOffset cfg + dataSize \<le> totalSize)
                    STR ''totalSize %zu is not enough to fit data %zu at offset %zu'') (\<lambda>_.
        case Alloc allocator totalSize totalAlignment of (ptr, allocator') \<Rightarrow>
          if ptr = 0 then Inl OutOfMemory
          else and_then (RuntimeAssert (IsAligned ptr totalAlignment)
                           STR ''Allocator returned unaligned to %zu pointer %p'') (\<lambda>_.
               Inr (ptr, allocator', h(ptr \<mapsto> 0)))))"

text \<open>
  \<open>Deleter\<close>: the destructor of the node destroys its \<open>next_\<close>, hence the chain it owns,
  and then the node is freed. On a cyclic chain the destruction does not end.
\<close>

partial_function (option) Deleter :: "node_heap \<Rightarrow> addr \<Rightarrow> node_heap option" where
  "Deleter h node =
     (case h node of
        None \<Rightarrow> None
      | Some n \<Rightarrow>
          if n = 0 then Some (h(node := None))
          else Option.bind (Deleter h n) (\<lambda>h'. Some (h'(node := None))))"


section \<open>ObjectFactoryStorage: producers, consumers and the registry\<close>

text \<open>
  \<open>Producer\<close>, \<open>Consumer\<close> and \<open>ObjectFactoryStorage\<close> each hold the owning pointer
  \<open>root_\<close>, the raw pointer \<open>last_\<close> and the counter \<open>size_\<close>. A member whose name ends
  in an underscore is written with a prime after it: \<open>root_'\<close>.
\<close>

record chain =
  root_' :: addr
  last_' :: addr
  size_' :: size_t

record Producer = chain +
  allocator_' :: Allocator

type_synonym Consumer = chain

text \<open>
  Modelled from the spec: the spin lock of the registry (Mutex.hpp is not among the
  sources). \<open>acquisitions\<close> counts the successful calls of \<open>lock()\<close>.
\<close>

record SpinLock =
  locked :: bool
  acquisitions :: nat

definition lock :: "SpinLock \<Rightarrow> error + SpinLock" where
  "lock m = (if locked m then Inl SpinLockBusy
             else Inr (m\<lparr>locked := True, acquisitions := acquisitions m + 1\<rparr>))"

definition unlock :: "SpinLock \<Rightarrow> SpinLock" where
  "unlock m = m\<lparr>locked := False\<rparr>"

record ObjectFactoryStorage = chain +
  mutex_' :: SpinLock

text \<open>
  \<open>AssertCorrect\<close> of \<open>Producer\<close> and \<open>Consumer\<close>, and \<open>AssertCorrectUnsafe\<close> of the
  registry: the same text three times.
\<close>

definition AssertCorrect :: "node_heap \<Rightarrow> 'a chain_scheme \<Rightarrow> error + unit" where
  "AssertCorrect h q =
     (if root_' q = 0 then RuntimeAssert (last_' q = 0) STR ''last_ must be null''
      else and_then (RuntimeAssert (last_' q \<noteq> 0) STR ''last_ must not be null'') (\<lambda>_.
           and_then (get_next h (last_' q)) (\<lambda>n.
           RuntimeAssert (n = 0) STR ''last_ must not have next'')))"

text \<open>
  The linking shared by \<open>Producer::Insert\<close> and \<open>Consumer::Insert\<close>:
  \<open>if (!root_) root_ = std::move(node); else last_->next_ = std::move(node);
  last_ = nodePtr; ++size_;\<close>
  Both callers have run \<open>AssertCorrect\<close> before: \<open>last_->next_\<close> is null, and the
  assignment to this \<open>unique_ptr\<close> deletes nothing. The same holds of the assignments in
  \<open>Publish\<close> and in \<open>ExtractUnsafe\<close>, whose targets are null or have just been moved from.
\<close>

definition link_node :: "addr \<Rightarrow> node_heap \<Rightarrow> 'a chain_scheme \<Rightarrow> error + (node_heap \<times> 'a chain_scheme)" where
  "link_node node h q =
     and_then (if root_' q = 0 then Inr (h, q\<lparr>root_' := node\<rparr>)
               else and_then (set_next h (last_' q) node) (\<lambda>h'. Inr (h', q))) (\<lambda>(h', q').
     Inr (h', q'\<lparr>last_' := node, size_' := size_' q' + 1\<rparr>))"

definition Producer_Insert ::
  "'a storage_layout_scheme \<Rightarrow> size_t \<Rightarrow> node_heap \<times> Producer \<Rightarrow> error + (addr \<times> node_heap \<times> Producer)" where
  "Producer_Insert cfg dataSize = (\<lambda>(h, p).
     and_then (AssertCorrect h p) (\<lambda>_.
     and_then (Node_Create cfg (allocator_' p) dataSize h) (\<lambda>(node, allocator', h1).
     and_then (link_node node h1 (p\<lparr>allocator_' := allocator'\<rparr>)) (\<lambda>(h2, p').
     and_then (RuntimeAssert (root_' p' \<noteq> 0) STR ''Must not be empty'') (\<lambda>_.
     and_then (AssertCorrect h2 p') (\<lambda>_.
     Inr (node, h2, p')))))))"

text \<open>
  \<open>Node::Create\<close> and \<open>Producer::Insert\<close> once more, now with the state in which the
  execution stops: a failure comes with the allocator and the node heap, and in \<open>Insert\<close>
  with the producer, as they are when the process ends. \<open>stopping s r\<close> attaches the state
  \<open>s\<close> to the failure of a step \<open>r\<close> that writes nothing before it fails; \<open>outcome\<close> forgets
  the state again. The member \<open>allocator_\<close> of the producer is the allocator that
  \<open>Node::Create\<close> has called.
\<close>

definition stopping :: "'s \<Rightarrow> error + 'a \<Rightarrow> (error \<times> 's) + 'a" where
  "stopping s r = (case r of Inl e \<Rightarrow> Inl (e, s) | Inr x \<Rightarrow> Inr x)"



definition outcome :: "(error \<times> 's) + 'a \<Rightarrow> error + 'a" where
  "outcome r = (case r of Inl (e, s) \<Rightarrow> Inl e | Inr x \<Rightarrow> Inr x)"

definition Producer_Publish ::
  "node_heap \<times> Producer \<times> ObjectFactoryStorage \<Rightarrow> error + (node_heap \<times> Producer \<times> ObjectFactoryStorage)" where
  "Producer_Publish = (\<lambda>(h, p, owner).
     and_then (AssertCorrect h p) (\<lambda>_.
     if root_' p = 0 then Inr (h, p, owner)
     else
       and_then (lock (mutex_' owner)) (\<lambda>m.
       let owner1 = owner\<lparr>mutex_' := m\<rparr> in
       and_then (AssertCorrect h owner1) (\<lambda>_.
       and_then (if root_' owner1 = 0 then Inr (h, owner1\<lparr>root_' := root_' p\<rparr>)
                 else and_then (set_next h (last_' owner1) (root_' p)) (\<lambda>h'. Inr (h', owner1))) (\<lambda>(h', owner2).
       let p1 = p\<lparr>root_' := 0\<rparr>;
           owner3 = owner2\<lparr>last_' := last_' p1\<rparr>;
           p2 = p1\<lparr>last_' := 0\<rparr>;
           owner4 = owner3\<lparr>size_' := size_' owner3 + size_' p2\<rparr>;
           p3 = p2\<lparr>size_' := 0\<rparr>
       in
       and_then (RuntimeAssert (root_' p3 = 0) STR ''Must be empty'') (\<lambda>_.
       and_then (AssertCorrect h' p3) (\<lambda>_.
       and_then (RuntimeAssert (root_' owner4 \<noteq> 0) STR ''Must not be empty'') (\<lambda>_.
       and_then (AssertCorrect h' owner4) (\<lambda>_.
       Inr (h', p3, owner4\<lparr>mutex_' := unlock (mutex_' owner4)\<rparr>))))))))))"

definition Consumer_Insert :: "addr \<Rightarrow> node_heap \<times> Consumer \<Rightarrow> error + (node_heap \<times> Consumer)" where
  "Consumer_Insert node = (\<lambda>(h, c).
     and_then (AssertCorrect h c) (\<lambda>_.
     and_then (link_node node h c) (\<lambda>(h', c').
     and_then (AssertCorrect h' c') (\<lambda>_.
     Inr (h', c')))))"

text \<open>
  \<open>ExtractUnsafe\<close> returns the extracted node and its old successor. Moving out of a
  \<open>unique_ptr\<close> leaves null behind, so the extracted node ends with a null \<open>next_\<close>.
\<close>

definition ExtractUnsafe ::
  "addr \<Rightarrow> node_heap \<times> ObjectFactoryStorage \<Rightarrow> error + ((addr \<times> addr) \<times> node_heap \<times> ObjectFactoryStorage)" where
  "ExtractUnsafe previousNode = (\<lambda>(h, st).
     and_then (RuntimeAssert (root_' st \<noteq> 0) STR ''Must not be empty'') (\<lambda>_.
     and_then (AssertCorrect h st) (\<lambda>_.
     if previousNode = 0 then
       let node = root_' st in
       and_then (get_next h node) (\<lambda>n.
       and_then (set_next h node 0) (\<lambda>h1.
       let st1 = st\<lparr>root_' := n\<rparr>;
           st2 = (if root_' st1 = 0 then st1\<lparr>last_' := 0\<rparr> else st1);
           st3 = st2\<lparr>size_' := size_' st2 - 1\<rparr>
       in
       and_then (AssertCorrect h1 st3) (\<lambda>_.
       Inr ((node, root_' st3), h1, st3))))
     else
       and_then (get_next h previousNode) (\<lambda>node.
       and_then (set_next h previousNode 0) (\<lambda>h1.
       and_then (get_next h1 node) (\<lambda>n.
       and_then (set_next h1 node 0) (\<lambda>h2.
       and_then (set_next h2 previousNode n) (\<lambda>h3.
       let st1 = (if n = 0 then st\<lparr>last_' := previousNode\<rparr> else st);
           st2 = st1\<lparr>size_' := size_' st1 - 1\<rparr>
       in
       and_then (AssertCorrect h3 st2) (\<lambda>_.
       Inr ((node, n), h3, st2))))))))))"

record Iterator =
  previousNode_' :: addr
  node_' :: addr

definition Iterable_begin :: "ObjectFactoryStorage \<Rightarrow> Iterator" where
  "Iterable_begin owner = \<lparr>previousNode_' = 0, node_' = root_' owner\<rparr>"

definition Iterable_end :: "ObjectFactoryStorage \<Rightarrow> Iterator" where
  "Iterable_end owner = \<lparr>previousNode_' = last_' owner, node_' = 0\<rparr>"

text \<open>\<open>Iterator::operator++\<close>.\<close>

definition Iterator_next :: "node_heap \<Rightarrow> Iterator \<Rightarrow> error + Iterator" where
  "Iterator_next h it =
     and_then (get_next h (node_' it)) (\<lambda>n. Inr \<lparr>previousNode_' = node_' it, node_' = n\<rparr>)"

text \<open>
  \<open>EraseAndAdvance\<close>: the extracted node is held by the local \<open>result\<close> and deleted
  when the function returns. A deletion that does not end, or that reaches a node that
  is not live, has no result.
\<close>

definition EraseAndAdvance ::
  "node_heap \<times> ObjectFactoryStorage \<times> Iterator \<Rightarrow> error + (node_heap \<times> ObjectFactoryStorage \<times> Iterator)" where
  "EraseAndAdvance = (\<lambda>(h, owner, iterator).
     and_then (ExtractUnsafe (previousNode_' iterator) (h, owner)) (\<lambda>(result, h1, owner').
     let iterator' = iterator\<lparr>node_' := snd result\<rparr> in
     case Deleter h1 (fst result) of
       None \<Rightarrow> Inl InvalidMemoryAccess
     | Some h2 \<Rightarrow> Inr (h2, owner', iterator')))"

definition MoveAndAdvance ::
  "node_heap \<times> ObjectFactoryStorage \<times> Consumer \<times> Iterator \<Rightarrow>
     error + (node_heap \<times> ObjectFactoryStorage \<times> Consumer \<times> Iterator)" where
  "MoveAndAdvance = (\<lambda>(h, owner, consumer, iterator).
     and_then (ExtractUnsafe (previousNode_' iterator) (h, owner)) (\<lambda>(result, h1, owner').
     let iterator' = iterator\<lparr>node_' := snd result\<rparr> in
     and_then (Consumer_Insert (fst result) (h1, consumer)) (\<lambda>(h2, consumer').
     Inr (h2, owner', consumer', iterator'))))"


section \<open>ObjectFactory\<close>

text \<open>
  Modelled from the spec: the type descriptor (TypeInfo.h is not among the sources).
  Section 6 of the specification gives it \<open>isArray : bool\<close> and \<open>instanceSize : int32\<close>,
  the latter holding, for an array type, the negative of the element size.
\<close>

record TypeInfo =
  instanceSize_' :: "32 word"
  IsArray :: bool

text \<open>
  The sizes and offsets of the headers depend on the target and on \<open>GC::ObjectData\<close>
  (\<open>sizeof_ArrayHeader\<close> is the size of the \<open>ArrayHeader\<close> embedded in a \<open>HeapArrayHeader\<close>);
  \<open>type_infos\<close> is the read-only memory of the type descriptors, and \<open>is_heap\<close> stands
  for \<open>ObjHeader::heap()\<close> (Memory.h is not among the sources), which inspects the tag
  bits of \<open>typeInfoOrMeta_\<close>. \<open>Storage\<close> is \<open>ObjectFactoryStorage<kObjectAlignment, Allocator>\<close>,
  so \<open>kObjectAlignment\<close> is the \<open>DataAlignment\<close> of the layout.
\<close>

record factory_layout = storage_layout +
  sizeof_ObjHeader :: size_t
  sizeof_HeapObjHeader :: size_t
  offsetof_HeapObjHeader_object :: size_t
  sizeof_ArrayHeader :: size_t
  sizeof_HeapArrayHeader :: size_t
  offsetof_HeapArrayHeader_array :: size_t
  type_infos :: "addr \<Rightarrow> TypeInfo"
  is_heap :: "addr \<Rightarrow> bool"

definition kObjectAlignment :: "'a factory_layout_scheme \<Rightarrow> size_t" where
  "kObjectAlignment cfg = DataAlignment cfg"

text \<open>\<open>ConcurrentMarkAndSweep::ObjectData\<close>.\<close>

datatype Color = kWhite | kBlack

record ObjectData =
  color_' :: Color

record ObjHeader =
  typeInfoOrMeta_' :: addr

record ArrayHeader = ObjHeader +
  count_' :: "32 word"

datatype header = Obj ObjHeader | Arr ArrayHeader

fun header_typeInfoOrMeta :: "header \<Rightarrow> addr" where
  "header_typeInfoOrMeta (Obj object) = typeInfoOrMeta_' object"
| "header_typeInfoOrMeta (Arr array) = typeInfoOrMeta_' array"

text \<open>
  The memory of the data regions, by the address of each member: the \<open>gcData\<close> of a
  \<open>HeapObjHeader\<close> or \<open>HeapArrayHeader\<close> lies at its start, the embedded \<open>ObjHeader\<close> or
  \<open>ArrayHeader\<close> at its offset.
\<close>

record object_memory =
  gcData_at :: "addr \<rightharpoonup> ObjectData"
  header_at :: "addr \<rightharpoonup> header"

record ThreadQueue =
  producer_' :: Producer

definition ObjectAllocatedDataSize :: "'a factory_layout_scheme \<Rightarrow> addr \<Rightarrow> size_t" where
  "ObjectAllocatedDataSize cfg typeInfo =
     (let membersSize = scast (instanceSize_' (type_infos cfg typeInfo)) - sizeof_ObjHeader cfg
      in AlignUp (sizeof_HeapObjHeader cfg + membersSize) (kObjectAlignment cfg))"

text \<open>
  In \<open>static_cast<uint32_t>(-typeInfo->instanceSize_) * count\<close> the negation is that of an
  \<open>int32_t\<close>, which has no result for the least \<open>int32_t\<close>; the product is a product of
  two \<open>uint32_t\<close>, which wraps around; the sum with \<open>sizeof(HeapArrayHeader)\<close> is a \<open>size_t\<close>,
  of 64 bits on the target of this model, where it wraps around only for a header of
  nearly \<open>2 ^ 64\<close> bytes.
\<close>

definition ArrayAllocatedDataSize :: "'a factory_layout_scheme \<Rightarrow> addr \<Rightarrow> 32 word \<Rightarrow> error + size_t" where
  "ArrayAllocatedDataSize cfg typeInfo count =
     (let instanceSize = instanceSize_' (type_infos cfg typeInfo) in
      if sint instanceSize = - (2 ^ 31) then Inl SignedOverflow
      else
        let membersSize = (- instanceSize) * count
        in Inr (AlignUp (sizeof_HeapArrayHeader cfg + ucast membersSize) (kObjectAlignment cfg)))"

definition CreateObject ::
  "'a factory_layout_scheme \<Rightarrow> addr \<Rightarrow> node_heap \<times> object_memory \<times> ThreadQueue \<Rightarrow>
     error + (addr \<times> node_heap \<times> object_memory \<times> ThreadQueue)" where
  "CreateObject cfg typeInfo = (\<lambda>(h, om, tq).
     and_then (RuntimeAssert (\<not> IsArray (type_infos cfg typeInfo)) STR ''Must not be an array'') (\<lambda>_.
     let allocSize = ObjectAllocatedDataSize cfg typeInfo in
     and_then (Producer_Insert cfg allocSize (h, producer_' tq)) (\<lambda>(node, h', p').
     and_then (Data cfg node) (\<lambda>heapObject.
     let object = heapObject + offsetof_HeapObjHeader_object cfg;
         om1 = om\<lparr>gcData_at := (gcData_at om)(heapObject \<mapsto> \<lparr>color_' = kWhite\<rparr>),
                  header_at := (header_at om)(object \<mapsto> Obj \<lparr>typeInfoOrMeta_' = 0\<rparr>)\<rparr>;
         om2 = om1\<lparr>header_at := (header_at om1)(object \<mapsto> Obj \<lparr>typeInfoOrMeta_' = typeInfo\<rparr>)\<rparr>
     in Inr (object, h', om2, tq\<lparr>producer_' := p'\<rparr>)))))"

definition CreateArray ::
  "'a factory_layout_scheme \<Rightarrow> addr \<Rightarrow> 32 word \<Rightarrow> node_heap \<times> object_memory \<times> ThreadQueue \<Rightarrow>
     error + (addr \<times> node_heap \<times> object_memory \<times> ThreadQueue)" where
  "CreateArray cfg typeInfo count = (\<lambda>(h, om, tq).
     and_then (RuntimeAssert (IsArray (type_infos cfg typeInfo)) STR ''Must be an array'') (\<lambda>_.
     and_then (ArrayAllocatedDataSize cfg typeInfo count) (\<lambda>allocSize.
     and_then (Producer_Insert cfg allocSize (h, producer_' tq)) (\<lambda>(node, h', p').
     and_then (Data cfg node) (\<lambda>heapArray.
     let array = heapArray + offsetof_HeapArrayHeader_array cfg;
         om1 = om\<lparr>gcData_at := (gcData_at om)(heapArray \<mapsto> \<lparr>color_' = kWhite\<rparr>),
                  header_at := (header_at om)(array \<mapsto> Arr \<lparr>typeInfoOrMeta_' = 0, count_' = 0\<rparr>)\<rparr>;
         om2 = om1\<lparr>header_at := (header_at om1)(array \<mapsto> Arr \<lparr>typeInfoOrMeta_' = typeInfo, count_' = 0\<rparr>)\<rparr>;
         om3 = om2\<lparr>header_at := (header_at om2)(array \<mapsto> Arr \<lparr>typeInfoOrMeta_' = typeInfo, count_' = count\<rparr>)\<rparr>
     in Inr (array, h', om3, tq\<lparr>producer_' := p'\<rparr>))))))"

text \<open>\<open>NodeRef::From\<close> for an \<open>ObjHeader*\<close> and for an \<open>ArrayHeader*\<close>; a \<open>NodeRef\<close> is the address of its node.\<close>

definition NodeRef_From_ObjHeader :: "'a factory_layout_scheme \<Rightarrow> object_memory \<Rightarrow> addr \<Rightarrow> error + addr" where
  "NodeRef_From_ObjHeader cfg om object =
     (case header_at om object of
        None \<Rightarrow> Inl InvalidMemoryAccess
      | Some hdr \<Rightarrow>
          and_then (RuntimeAssert (is_heap cfg (header_typeInfoOrMeta hdr)) STR ''Must be a heap object'') (\<lambda>_.
          let heapObject = object - offsetof_HeapObjHeader_object cfg in
          and_then (RuntimeAssert (heapObject + offsetof_HeapObjHeader_object cfg = object)
                      STR ''HeapObjHeader layout has broken'') (\<lambda>_.
          FromData cfg heapObject)))"

definition NodeRef_From_ArrayHeader :: "'a factory_layout_scheme \<Rightarrow> object_memory \<Rightarrow> addr \<Rightarrow> error + addr" where
  "NodeRef_From_ArrayHeader cfg om array =
     (case header_at om array of
        None \<Rightarrow> Inl InvalidMemoryAccess
      | Some hdr \<Rightarrow>
          and_then (RuntimeAssert (is_heap cfg (header_typeInfoOrMeta hdr)) STR ''Must be a heap object'') (\<lambda>_.
          let heapArray = array - offsetof_HeapArrayHeader_array cfg in
          and_then (RuntimeAssert (heapArray + offsetof_HeapArrayHeader_array cfg = array)
                      STR ''HeapArrayHeader layout has broken'') (\<lambda>_.
          FromData cfg heapArray)))"

text \<open>
  The data size of an array as the specification writes it: the header, plus the
  element size (the negated instance size) times the count modulo \<open>2 ^ 32\<close>, rounded up
  to the object alignment.
\<close>

definition spec_array_data_size :: "nat \<Rightarrow> int \<Rightarrow> nat \<Rightarrow> nat \<Rightarrow> nat" where
  "spec_array_data_size headerSize instanceSize count alignment =
     round_up (headerSize + (nat (- instanceSize) * count) mod 2 ^ 32) alignment"


section \<open>The registry and its clients as one system\<close>

text \<open>
  One registry, its producers and consumers (by number), the node heap they share, and
  the iterator of the \<open>Iterable\<close> that holds the lock of the registry, if there is one.
\<close>

record system =
  nodes :: node_heap
  storage :: ObjectFactoryStorage
  producers :: "nat \<Rightarrow> Producer"
  consumers :: "nat \<Rightarrow> Consumer"
  iterator :: Iterator

datatype operation =
    Insert nat size_t
  | Publish nat
  | LockForIter
  | Next
  | Erase
  | Move nat
  | Release

text \<open>
  \<open>LockForIter\<close> constructs the \<open>Iterable\<close>, which takes the lock, and calls \<open>begin()\<close>;
  \<open>Release\<close> destroys the \<open>Iterable\<close>. \<open>Next\<close>, \<open>Erase\<close> and \<open>Move\<close> need an \<open>Iterable\<close>.
\<close>

fun exec :: "'a storage_layout_scheme \<Rightarrow> operation \<Rightarrow> system \<Rightarrow> error + system" where
  "exec cfg (Insert i dataSize) s =
     and_then (Producer_Insert cfg dataSize (nodes s, producers s i)) (\<lambda>(node, h, p).
     Inr (s\<lparr>nodes := h, producers := (producers s)(i := p)\<rparr>))"
| "exec cfg (Publish i) s =
     and_then (Producer_Publish (nodes s, producers s i, storage s)) (\<lambda>(h, p, owner).
     Inr (s\<lparr>nodes := h, producers := (producers s)(i := p), storage := owner\<rparr>))"
| "exec cfg LockForIter s =
     and_then (lock (mutex_' (storage s))) (\<lambda>m.
     let owner = (storage s)\<lparr>mutex_' := m\<rparr>
     in Inr (s\<lparr>storage := owner, iterator := Iterable_begin owner\<rparr>))"
| "exec cfg Next s =
     (if \<not> locked (mutex_' (storage s)) then Inl NoIterable
      else and_then (Iterator_next (nodes s) (iterator s)) (\<lambda>it. Inr (s\<lparr>iterator := it\<rparr>)))"
| "exec cfg Erase s =
     (if \<not> locked (mutex_' (storage s)) then Inl NoIterable
      else and_then (EraseAndAdvance (nodes s, storage s, iterator s)) (\<lambda>(h, owner, it).
           Inr (s\<lparr>nodes := h, storage := owner, iterator := it\<rparr>)))"
| "exec cfg (Move j) s =
     (if \<not> locked (mutex_' (storage s)) then Inl NoIterable
      else and_then (MoveAndAdvance (nodes s, storage s, consumers s j, iterator s)) (\<lambda>(h, owner, c, it).
           Inr (s\<lparr>nodes := h, storage := owner, consumers := (consumers s)(j := c), iterator := it\<rparr>)))"
| "exec cfg Release s =
     (if \<not> locked (mutex_' (storage s)) then Inl NoIterable
      else Inr (s\<lparr>storage := (storage s)\<lparr>mutex_' := unlock (mutex_' (storage s))\<rparr>\<rparr>))"

fun run :: "'a storage_layout_scheme \<Rightarrow> operation list \<Rightarrow> system \<Rightarrow> error + system" where
  "run cfg [] s = Inr s"
| "run cfg (x # xs) s = and_then (exec cfg x s) (run cfg xs)"

definition empty_chain :: chain where
  "empty_chain = \<lparr>root_' = 0, last_' = 0, size_' = 0\<rparr>"

text \<open>A new registry, with producers that hold the given allocators and have inserted nothing.\<close>

definition initial :: "(nat \<Rightarrow> Allocator) \<Rightarrow> system" where
  "initial allocators =
     \<lparr>nodes = Map.empty,
      storage = \<lparr>root_' = 0, last_' = 0, size_' = 0, mutex_' = \<lparr>locked = False, acquisitions = 0\<rparr>\<rparr>,
      producers = (\<lambda>i. \<lparr>root_' = 0, last_' = 0, size_' = 0, allocator_' = allocators i\<rparr>),
      consumers = (\<lambda>j. empty_chain),
      iterator = \<lparr>previousNode_' = 0, node_' = 0\<rparr>\<rparr>"

text \<open>
  The contract of the allocator that the registry needs: the block it returns is not
  the block of a live node. \<open>fresh_answers\<close> checks it at every insertion of a run.
\<close>

fun fresh_answer :: "operation \<Rightarrow> system \<Rightarrow> bool" where
  "fresh_answer (Insert i dataSize) s =
     (case responses (allocator_' (producers s i)) of [] \<Rightarrow> True | ptr # _ \<Rightarrow> nodes s ptr = None)"
| "fresh_answer _ s = True"

fun fresh_answers :: "'a storage_layout_scheme \<Rightarrow> operation list \<Rightarrow> system \<Rightarrow> bool" where
  "fresh_answers cfg [] s = True"
| "fresh_answers cfg (x # xs) s =
     (fresh_answer x s \<and> (case exec cfg x s of Inl _ \<Rightarrow> True | Inr s' \<Rightarrow> fresh_answers cfg xs s'))"


section \<open>Chains in the node heap\<close>

text \<open>
  \<open>chain_seg h p xs q\<close>: following \<open>next_\<close> from \<open>p\<close> visits the live nodes \<open>xs\<close>, in this
  order, and arrives at \<open>q\<close>.
\<close>

fun chain_seg :: "node_heap \<Rightarrow> addr \<Rightarrow> addr list \<Rightarrow> addr \<Rightarrow> bool" where
  "chain_seg h p [] q = (p = q)"
| "chain_seg h p (x # xs) q =
     (p = x \<and> p \<noteq> 0 \<and> (case h p of None \<Rightarrow> False | Some n \<Rightarrow> chain_seg h n xs q))"

text \<open>
  \<open>holds h q xs\<close>: the queue \<open>q\<close> holds exactly the nodes \<open>xs\<close>: they are its chain from
  \<open>root_\<close> to null, \<open>last_\<close> is the last of them and \<open>size_\<close> is their number.
\<close>

definition holds :: "node_heap \<Rightarrow> 'a chain_scheme \<Rightarrow> addr list \<Rightarrow> bool" where
  "holds h q xs =
     (chain_seg h (root_' q) xs 0 \<and>
      last_' q = (if xs = [] then 0 else last xs) \<and>
      unat (size_' q) = length xs)"

text \<open>
  Forward iteration, as \<open>for (auto it = begin(); it != end(); ++it)\<close> does it, for at
  most \<open>k\<close> steps: the nodes visited when the iteration ends within \<open>k\<close> steps.
\<close>

fun iterate :: "node_heap \<Rightarrow> nat \<Rightarrow> addr \<Rightarrow> addr list option" where
  "iterate h 0 p = (if p = 0 then Some [] else None)"
| "iterate h (Suc k) p =
     (if p = 0 then Some []
      else case h p of None \<Rightarrow> None | Some n \<Rightarrow> map_option ((#) p) (iterate h k n))"

text \<open>The well-formedness of a queue as the specification states it.\<close>

definition well_formed :: "node_heap \<Rightarrow> 'a chain_scheme \<Rightarrow> bool" where
  "well_formed h q =
     ((root_' q = 0) = (last_' q = 0) \<and>
      (last_' q = 0) = (size_' q = 0) \<and>
      (root_' q \<noteq> 0 \<longrightarrow> h (last_' q) = Some 0) \<and>
      (case iterate h (unat (size_' q)) (root_' q) of
         None \<Rightarrow> False
       | Some xs \<Rightarrow> length xs = unat (size_' q) \<and> distinct xs))"

text \<open>
  An iterator is positioned on the node \<open>n\<close> of the chain \<open>ys @ n # zs\<close> when it points
  at \<open>n\<close> and has recorded the predecessor of \<open>n\<close>, null for the first node.
\<close>

definition positioned :: "Iterator \<Rightarrow> addr list \<Rightarrow> addr \<Rightarrow> bool" where
  "positioned it ys n = (node_' it = n \<and> previousNode_' it = (if ys = [] then 0 else last ys))"


section \<open>AvaliableProcessors.cpp\<close>

text \<open>
  Of this file only \<open>availableProcessorsFallback\<close> and the last branch of the preprocessor
  (neither \<open>KONAN_NO_THREADS\<close>, nor \<open>KONAN_WINDOWS\<close>, nor \<open>KONAN_LINUX\<close> with \<open>sched.h\<close>) are
  C++ that defines \<open>Konan_Platform_availableProcessors\<close>, and only they are embedded.
  The branch of \<open>KONAN_NO_THREADS\<close> defines a function of another name,
  \<open>Konan_Platform_availbleProcessors\<close>. The branch of \<open>KONAN_WINDOWS\<close> applies \<open>*\<close> to
  \<open>lpSystemAffinityMask\<close>, which is an integer. The branch of \<open>KONAN_LINUX\<close> has \<open>retrun\<close>
  for a statement, gives a \<open>cpu_set_t\<close> to \<open>CPU_ZERO\<close>, \<open>CPU_COUNT\<close> and \<open>CPU_COUNT_S\<close>, which
  take a pointer, calls \<open>CPU_ALLOC\<close> with two arguments, and names \<open>st_ptr\<close> and \<open>cpu\<close>, which
  are not declared. The argument \<open>hardware_concurrency\<close> is the value that
  \<open>std::thread::hardware_concurrency()\<close> returns, an \<open>unsigned int\<close>.
\<close>

definition availableProcessorsFallback :: "32 word \<Rightarrow> int" where
  "availableProcessorsFallback hardware_concurrency =
     (let result = sint hardware_concurrency
      in if result \<le> 0 then 1 else result)"

definition Konan_Platform_availableProcessors :: "32 word \<Rightarrow> int" where
  "Konan_Platform_availableProcessors hardware_concurrency =
     availableProcessorsFallback hardware_concurrency"

section \<open>Ownership in the system\<close>

text \<open>
  Every queue of the system holds its own nodes, no node is held by two queues, and
  while an \<open>Iterable\<close> holds the lock its iterator stands between two parts of the
  chain of the registry: on the first node of the second part, or at the end, with
  the last node of the first part as the recorded predecessor.
\<close>

datatype owner = Registry | ProducerQueue nat | ConsumerQueue nat

definition queue_of :: "system \<Rightarrow> owner \<Rightarrow> chain" where
  "queue_of s w =
     (case w of
        Registry \<Rightarrow> chain.truncate (storage s)
      | ProducerQueue i \<Rightarrow> chain.truncate (producers s i)
      | ConsumerQueue j \<Rightarrow> consumers s j)"

definition holds_in :: "system \<Rightarrow> owner \<Rightarrow> addr list \<Rightarrow> bool" where
  "holds_in s w xs = holds (nodes s) (queue_of s w) xs"

definition iterator_valid :: "system \<Rightarrow> addr list \<Rightarrow> bool" where
  "iterator_valid s rs =
     (locked (mutex_' (storage s)) \<longrightarrow>
        (\<exists>ys zs. rs = ys @ zs \<and>
           previousNode_' (iterator s) = (if ys = [] then 0 else last ys) \<and>
           node_' (iterator s) = (if zs = [] then 0 else hd zs)))"

definition consistent :: "system \<Rightarrow> (owner \<Rightarrow> addr list) \<Rightarrow> bool" where
  "consistent s L =
     ((\<forall>w. holds_in s w (L w)) \<and>
      (\<forall>w w'. w \<noteq> w' \<longrightarrow> set (L w) \<inter> set (L w') = {}) \<and>
      iterator_valid s (L Registry))"


section \<open>Concrete layouts and queues\<close>

text \<open>A producer as its constructor leaves it, with an allocator that will give the answers listed.\<close>

definition new_producer :: "addr list \<Rightarrow> Producer" where
  "new_producer answers =
     \<lparr>root_' = 0, last_' = 0, size_' = 0, allocator_' = \<lparr>responses = answers, requests = []\<rparr>\<rparr>"

definition new_storage :: ObjectFactoryStorage where
  "new_storage = \<lparr>root_' = 0, last_' = 0, size_' = 0, mutex_' = \<lparr>locked = False, acquisitions = 0\<rparr>\<rparr>"

text \<open>A storage for data of alignment 16 (\<open>std::max_align_t\<close>) on a 64-bit target.\<close>

definition max_aligned_layout :: storage_layout where
  "max_aligned_layout = \<lparr>sizeof_Node = 8, alignof_Node = 8, DataAlignment = 16\<rparr>"

text \<open>
  A 64-bit target with \<open>kObjectAlignment = 8\<close>: the object header is one pointer, the GC
  data is padded to the alignment of the header, and the array header is a pointer and a
  32-bit count, padded to 16 bytes, which makes a heap array header of 24 bytes. The
  type descriptor at 8192 is an array type with elements of 4 bytes; every other one is
  an object type of 24 bytes. Heap objects have the two low bits of \<open>typeInfoOrMeta_\<close>
  clear.
\<close>

definition lp64_factory :: factory_layout where
  "lp64_factory =
     \<lparr>sizeof_Node = 8, alignof_Node = 8, DataAlignment = 8,
      sizeof_ObjHeader = 8, sizeof_HeapObjHeader = 16, offsetof_HeapObjHeader_object = 8,
      sizeof_ArrayHeader = 16, sizeof_HeapArrayHeader = 24, offsetof_HeapArrayHeader_array = 8,
      type_infos = (\<lambda>typeInfo. if typeInfo = 8192 then \<lparr>instanceSize_' = - 4, IsArray = True\<rparr>
                                 else \<lparr>instanceSize_' = 24, IsArray = False\<rparr>),
      is_heap = (\<lambda>typeInfoOrMeta. typeInfoOrMeta AND 3 = 0)\<rparr>"

definition empty_memory :: object_memory where
  "empty_memory = \<lparr>gcData_at = Map.empty, header_at = Map.empty\<rparr>"

definition new_thread_queue :: "addr list \<Rightarrow> ThreadQueue" where
  "new_thread_queue answers = \<lparr>producer_' = new_producer answers\<rparr>"

text \<open>
  A run: a producer inserts three nodes and publishes them; the registry is locked for
  iteration, the first node is moved to a consumer, the iterator steps over the second
  node, and the third is erased.
\<close>

definition three_answers :: "nat \<Rightarrow> Allocator" where
  "three_answers i = \<lparr>responses = [64, 128, 192], requests = []\<rparr>"

definition example_run :: "operation list" where
  "example_run =
     [Insert 0 24, Insert 0 24, Insert 0 24, Publish 0, LockForIter, Move 0, Next, Erase, Release]"


section \<open>Properties of the alignment arithmetic\<close>

lemma unat_two_power: "k < 64 \<Longrightarrow> unat ((2::64 word) ^ k) = 2 ^ k"
proof -
  assume k: "k < 64"
  have lt: "(2::nat) ^ k < 2 ^ 64"
    by (rule power_strict_increasing) (use k in simp_all)
  have "unat (word_of_nat (2 ^ k) :: 64 word) = 2 ^ k mod 2 ^ LENGTH(64)"
    by (rule unat_of_nat)
  then show ?thesis using lt by simp
qed

lemma valid_alignment_unat: "IsValidAlignment a \<Longrightarrow> \<exists>k<64. unat a = 2 ^ k"
  by (auto simp: IsValidAlignment_def unat_two_power)

lemma valid_alignment_nonzero: "IsValidAlignment a \<Longrightarrow> a \<noteq> 0"
  using valid_alignment_unat [of a] by (auto simp: unat_eq_0 [symmetric] simp del: unat_eq_0)

lemma valid_alignment_max: "IsValidAlignment a \<Longrightarrow> IsValidAlignment b \<Longrightarrow> IsValidAlignment (max a b)"
  by (simp add: max_def)

lemma valid_alignment_dvd_max:
  assumes "IsValidAlignment a" "IsValidAlignment b"
  shows "unat a dvd unat (max a b)"
proof (cases "a \<le> b")
  case True
  from assms obtain k j where kj: "unat a = 2 ^ k" "unat b = 2 ^ j"
    using valid_alignment_unat by blast
  from True have "unat a \<le> unat b" by (simp add: word_le_nat_alt)
  then have "k \<le> j" using kj by simp
  then have "(2::nat) ^ k dvd 2 ^ j" by (rule le_imp_power_dvd)
  then show ?thesis using True kj by (simp add: max_def)
next
  case False
  then show ?thesis by (simp add: max_def)
qed

lemma round_up_ge: 
  assumes "0 < a" shows "n \<le> round_up n a"
proof -
  let ?m = "n + a - 1"
  have "?m div a * a + ?m mod a = ?m" by simp
  moreover have "?m mod a < a" using assms by simp
  ultimately show ?thesis unfolding round_up_def using assms by linarith
qed

lemma round_up_lt:
  assumes "0 < a" shows "round_up n a < n + a"
proof -
  let ?m = "n + a - 1"
  have "?m div a * a \<le> ?m" by simp
  then show ?thesis unfolding round_up_def using assms by linarith
qed

lemma round_up_dvd: "a dvd round_up n a"
  by (simp add: round_up_def)

lemma round_up_least: 
  assumes "0 < a" "a dvd m" "n \<le> m" shows "round_up n a \<le> m"
proof -
  from assms(2) obtain q where m: "m = a * q" ..
  have "n + a - 1 < a * (q + 1)" using assms m by simp
  then have "(n + a - 1) div a < q + 1"
    using assms(1) by (simp add: less_mult_imp_div_less mult.commute)
  then have "(n + a - 1) div a \<le> q" by simp
  then have "(n + a - 1) div a * a \<le> q * a" by (rule mult_le_mono1)
  then show ?thesis by (simp add: round_up_def m mult.commute)
qed

lemma round_up_add: 
  assumes "0 < a" "a dvd m" shows "round_up (s + m) a = round_up s a + m"
proof -
  have "(s + m + a - 1) = (s + a - 1) + m" using assms by simp
  then have "(s + m + a - 1) div a = (s + a - 1) div a + m div a"
    using assms(2) by (simp add: div_plus_div_distrib_dvd_right)
  then show ?thesis using assms(2) by (simp add: round_up_def add_mult_distrib)
qed

lemma round_up_coarser:
  assumes "0 < a" "a dvd b" "0 < b" shows "round_up n a \<le> round_up n b"
  by (rule round_up_least [OF assms(1)])
     (use assms in \<open>auto intro: dvd_trans round_up_dvd round_up_ge\<close>)

lemma round_up_id: "0 < a \<Longrightarrow> a dvd n \<Longrightarrow> round_up n a = n"
  using round_up_least [of a n n] round_up_ge [of a n] by simp

lemma unat_AlignUp: 
  assumes "alignment \<noteq> 0" and "unat sz + unat alignment \<le> 2 ^ 64"
  shows "unat (AlignUp sz alignment) = round_up (unat sz) (unat alignment)"
proof -
  have a: "0 < unat alignment" using assms(1) by (simp add: unat_gt_0)
  have "unat (sz + (alignment - 1)) = unat sz + unat (alignment - 1)"
    using assms a by (subst unat_add_lem [THEN iffD1]) (simp_all add: unat_minus_one)
  then have 1: "unat (sz + alignment - 1) = unat sz + unat alignment - 1"
    using assms(1) a by (simp add: unat_minus_one add_diff_eq)
  have "unat ((sz + alignment - 1) div alignment) * unat alignment \<le> unat (sz + alignment - 1)"
    by (simp add: unat_div)
  also have "\<dots> < 2 ^ 64" using unsigned_less [of "sz + alignment - 1", where ?'a = nat] by simp
  finally have "unat ((sz + alignment - 1) div alignment * alignment)
      = unat ((sz + alignment - 1) div alignment) * unat alignment"
    by (subst unat_mult_lem [THEN iffD1]) simp_all
  then show ?thesis by (simp add: AlignUp_def round_up_def unat_div 1)
qed

lemma total_size_unat:
  assumes v: "valid_layout cfg" and f: "size_fits cfg dataSize"
  shows "unat (fst (GetSizeAndAlignmentForDataSize cfg dataSize)) =
           round_up (unat (sizeof_Node cfg) + round_up (unat dataSize) (unat (DataAlignment cfg)))
             (unat (max (alignof_Node cfg) (DataAlignment cfg)))"
proof -
  let ?DA = "DataAlignment cfg" and ?TA = "max (alignof_Node cfg) (DataAlignment cfg)"
  have da: "?DA \<noteq> 0" and ta: "?TA \<noteq> 0"
    using v by (auto simp: valid_layout_def valid_alignment_nonzero max_def)
  have 1: "unat (AlignUp dataSize ?DA) = round_up (unat dataSize) (unat ?DA)"
    using da f by (simp add: unat_AlignUp size_fits_def)
  have 2: "unat (sizeof_Node cfg + AlignUp dataSize ?DA) = unat (sizeof_Node cfg) + unat (AlignUp dataSize ?DA)"
    using f ta by (subst unat_add_lem [THEN iffD1]) (auto simp: size_fits_def unat_gt_0 [symmetric] simp del: unat_gt_0)
  have "unat (AlignUp (sizeof_Node cfg + AlignUp dataSize ?DA) ?TA)
      = round_up (unat (sizeof_Node cfg + AlignUp dataSize ?DA)) (unat ?TA)"
    using ta f 2 by (intro unat_AlignUp) (simp_all add: size_fits_def)
  then show ?thesis by (simp add: GetSizeAndAlignmentForDataSize_def Let_def 1 2)
qed

lemma data_offset_unat:
  assumes v: "valid_layout cfg" and f: "size_fits cfg dataSize"
  shows "unat (DataOffset cfg) = round_up (unat (sizeof_Node cfg)) (unat (DataAlignment cfg))"
proof -
  have "unat (DataAlignment cfg) \<le> unat (max (alignof_Node cfg) (DataAlignment cfg))"
    by (simp add: word_le_nat_alt [symmetric])
  then have "unat (sizeof_Node cfg) + unat (DataAlignment cfg) \<le> 2 ^ 64"
    using f by (simp add: size_fits_def)
  then show ?thesis
    using v by (simp add: DataOffset_def unat_AlignUp valid_layout_def valid_alignment_nonzero)
qed

lemma fit_nat:
  assumes v: "valid_layout cfg" and f: "size_fits cfg dataSize"
  shows "unat (DataOffset cfg) + unat dataSize \<le> unat (fst (GetSizeAndAlignmentForDataSize cfg dataSize))"
proof -
  let ?S = "unat (sizeof_Node cfg)" and ?d = "unat dataSize"
  let ?DA = "unat (DataAlignment cfg)" and ?TA = "unat (max (alignof_Node cfg) (DataAlignment cfg))"
  have da: "0 < ?DA" and ta: "0 < ?TA"
    using v by (auto simp: valid_layout_def unat_gt_0 valid_alignment_nonzero max_def)
  have dvd: "?DA dvd ?TA"
    using v valid_alignment_dvd_max [of "DataAlignment cfg" "alignof_Node cfg"]
    by (simp add: valid_layout_def max.commute)
  have "round_up ?S ?DA + ?d \<le> round_up ?S ?DA + round_up ?d ?DA"
    using da by (simp add: round_up_ge)
  also have "\<dots> = round_up (?S + round_up ?d ?DA) ?DA"
    using da by (simp add: round_up_add round_up_dvd)
  also have "\<dots> \<le> round_up (?S + round_up ?d ?DA) ?TA"
    by (rule round_up_coarser [OF da dvd ta])
  finally show ?thesis
    by (simp add: total_size_unat [OF v f] data_offset_unat [OF v f])
qed

lemma valid_lp64_layout: "valid_layout lp64_layout"
proof -
  have "(8::64 word) = 2 ^ 3" by simp
  then have "IsValidAlignment 8"
    unfolding IsValidAlignment_def by (intro image_eqI [where x = 3]) simp_all
  then show ?thesis by (simp add: valid_layout_def lp64_layout_def)
qed


section \<open>The data region fits into the allocation\<close>

lemma fit_word:
  assumes "valid_layout cfg" and "size_fits cfg dataSize"
  shows "DataOffset cfg + dataSize \<le> fst (GetSizeAndAlignmentForDataSize cfg dataSize) \<and>
         unat (DataOffset cfg) + unat dataSize \<le> unat (fst (GetSizeAndAlignmentForDataSize cfg dataSize))"
proof -
  have le: "unat (DataOffset cfg) + unat dataSize \<le> unat (fst (GetSizeAndAlignmentForDataSize cfg dataSize))"
    using assms by (rule fit_nat)
  also have "\<dots> < 2 ^ 64"
    using unsigned_less [of "fst (GetSizeAndAlignmentForDataSize cfg dataSize)", where ?'a = nat] by simp
  finally have "unat (DataOffset cfg + dataSize) = unat (DataOffset cfg) + unat dataSize"
    by (subst unat_add_lem [THEN iffD1]) simp_all
  with le show ?thesis by (simp add: word_le_nat_alt)
qed

text \<open>
  C10, as amended. For a valid layout and every \<open>dataSize\<close> whose size computation does
  not wrap around (\<open>size_fits\<close>), the total size computed by
  \<open>GetSizeAndAlignmentForDataSize\<close> is at least \<open>DataOffset() + dataSize\<close>: the condition
  of the \<open>RuntimeAssert\<close> of \<open>Node::Create\<close> holds, and it holds of the sizes as numbers,
  so the data region of \<open>dataSize\<close> bytes at the data offset lies inside the allocation.
\<close>

theorem fit_guarantee:
  assumes "valid_layout cfg" and "size_fits cfg dataSize"
  shows "DataOffset cfg + dataSize \<le> fst (GetSizeAndAlignmentForDataSize cfg dataSize) \<and>
         unat (DataOffset cfg) + unat dataSize \<le> unat (fst (GetSizeAndAlignmentForDataSize cfg dataSize))"
  using assms by (rule fit_word)

theorem fit_guarantee_witness:
  "valid_layout lp64_layout \<and> size_fits lp64_layout 24 \<and>
   DataOffset lp64_layout + 24 \<le> fst (GetSizeAndAlignmentForDataSize lp64_layout 24) \<and>
   unat (DataOffset lp64_layout) + unat (24 :: size_t)
     \<le> unat (fst (GetSizeAndAlignmentForDataSize lp64_layout 24))"
proof -
  have f: "size_fits lp64_layout 24"
    by (simp add: lp64_layout_def size_fits_def AlignUp_def)
  show ?thesis
    using fit_guarantee [OF valid_lp64_layout f] valid_lp64_layout f by simp
qed

text \<open>
  C10 as stated fails: with one-pointer nodes and alignment 8, the data size
  \<open>2 ^ 64 - 9\<close> is rounded up to \<open>2 ^ 64 - 8\<close>, the sum with \<open>sizeof(Node)\<close> wraps around
  to a total size of 0, and the assertion of \<open>Node::Create\<close> fires.
\<close>

theorem fit_guarantee_counterexample:
  "\<not> DataOffset lp64_layout + 18446744073709551607
       \<le> fst (GetSizeAndAlignmentForDataSize lp64_layout 18446744073709551607)"
  by (simp add: lp64_layout_def DataOffset_def GetSizeAndAlignmentForDataSize_def AlignUp_def)

section \<open>The number of available processors\<close>

text \<open>
  The fallback, and with it the one branch that is embedded, returns a positive number
  whatever \<open>hardware_concurrency()\<close> returns: 0 where it is not implemented, and a value
  that is negative as an \<open>int\<close>, give 1.
\<close>

lemma availableProcessorsFallback_positive: "0 < availableProcessorsFallback hardware_concurrency"
  by (simp add: availableProcessorsFallback_def Let_def)

lemma availableProcessors_positive: "0 < Konan_Platform_availableProcessors hardware_concurrency"
  by (simp add: Konan_Platform_availableProcessors_def availableProcessorsFallback_positive)

section \<open>Sequencing of fallible steps\<close>

lemma and_then_Inr [simp]: "and_then (Inr x) f = f x"
  by (simp add: and_then_def)

lemma and_then_Inl [simp]: "and_then (Inl e) f = Inl e"
  by (simp add: and_then_def)

lemma and_then_eq_Inr: "and_then r f = Inr y \<longleftrightarrow> (\<exists>x. r = Inr x \<and> f x = Inr y)"
  by (cases r) simp_all

lemma RuntimeAssert_holds [simp]: "condition \<Longrightarrow> RuntimeAssert condition msg = Inr ()"
  by (simp add: RuntimeAssert_def)

lemma RuntimeAssert_fails [simp]: "\<not> condition \<Longrightarrow> RuntimeAssert condition msg = Inl (RuntimeAssertFailed msg)"
  by (simp add: RuntimeAssert_def)

lemma RuntimeAssert_eq_Inr [simp]: "RuntimeAssert condition msg = Inr u \<longleftrightarrow> condition"
  by (simp add: RuntimeAssert_def)

section \<open>Properties of chains\<close>

lemma chain_seg_null [simp]: "chain_seg h 0 xs q \<longleftrightarrow> xs = [] \<and> q = 0"
  by (cases xs) auto

lemma chain_seg_append:
  "chain_seg h p (xs @ ys) q \<longleftrightarrow> (\<exists>m. chain_seg h p xs m \<and> chain_seg h m ys q)"
  by (induction xs arbitrary: p) (auto split: option.splits)

lemma chain_seg_frame:
  "a \<notin> set xs \<Longrightarrow> chain_seg (h(a := v)) p xs q = chain_seg h p xs q"
  by (induction xs arbitrary: p) (auto split: option.splits)

lemma chain_seg_nonnull: "chain_seg h p xs q \<Longrightarrow> 0 \<notin> set xs"
  by (induction xs arbitrary: p) (auto split: option.splits)

lemma chain_seg_live: "chain_seg h p xs q \<Longrightarrow> set xs \<subseteq> dom h"
  by (induction xs arbitrary: p) (auto split: option.splits)

lemma chain_seg_hd: "chain_seg h p xs q \<Longrightarrow> xs \<noteq> [] \<Longrightarrow> p = hd xs \<and> p \<noteq> 0"
  by (cases xs) auto

lemma chain_seg_snoc:
  "chain_seg h p (xs @ [x]) q \<longleftrightarrow> chain_seg h p xs x \<and> x \<noteq> 0 \<and> h x = Some q"
  by (auto simp: chain_seg_append split: option.splits)

lemma chain_unique: "chain_seg h p xs 0 \<Longrightarrow> chain_seg h p ys 0 \<Longrightarrow> xs = ys"
proof (induction xs arbitrary: p ys)
  case Nil
  then show ?case by simp
next
  case (Cons x xs)
  then show ?case by (cases ys) (auto split: option.splits)
qed

lemma chain_no_return:
  assumes "chain_seg h n xs 0" and "h a = Some n" shows "a \<notin> set xs"
proof
  assume "a \<in> set xs"
  then obtain ys zs where xs: "xs = ys @ a # zs" by (auto simp: in_set_conv_decomp)
  with assms(1) obtain m where "chain_seg h m (a # zs) 0"
    by (auto simp: chain_seg_append)
  with assms(2) have "chain_seg h n zs 0" by (auto split: option.splits)
  with assms(1) have "xs = zs" by (rule chain_unique)
  with xs show False by simp
qed

lemma chain_distinct: "chain_seg h p xs 0 \<Longrightarrow> distinct xs"
proof (induction xs arbitrary: p)
  case Nil
  then show ?case by simp
next
  case (Cons x xs)
  then show ?case by (auto split: option.splits dest: chain_no_return)
qed

lemma chain_last_next: "chain_seg h p xs 0 \<Longrightarrow> xs \<noteq> [] \<Longrightarrow> h (last xs) = Some 0"
  by (induction xs arbitrary: p) (auto split: option.splits if_splits)

lemma distinct_nonnull_length:
  fixes xs :: "addr list"
  assumes "distinct xs" and "0 \<notin> set xs"
  shows "length xs < 2 ^ 64"
proof -
  have "set xs \<subseteq> UNIV - {0}" using assms(2) by auto
  then have "card (set xs) \<le> card (UNIV - {0 :: addr})"
    by (intro card_mono) simp_all
  also have "\<dots> = 2 ^ 64 - 1"
    by (simp add: card_Diff_singleton card_word)
  finally show ?thesis using assms(1) by (simp add: distinct_card)
qed

lemma chain_length: "chain_seg h p xs 0 \<Longrightarrow> length xs < 2 ^ 64"
  by (rule distinct_nonnull_length) (auto dest: chain_distinct chain_seg_nonnull)

lemma iterate_chain: "chain_seg h p xs 0 \<Longrightarrow> iterate h (length xs) p = Some xs"
  by (induction xs arbitrary: p) (auto split: option.splits)

section \<open>Properties of queues\<close>

lemma holds_root_null: "holds h q xs \<Longrightarrow> root_' q = 0 \<longleftrightarrow> xs = []"
  by (cases xs) (auto simp: holds_def)

lemma holds_last_null:
  assumes "holds h q xs" shows "last_' q = 0 \<longleftrightarrow> xs = []"
proof (cases "xs = []")
  case True
  then show ?thesis using assms by (simp add: holds_def)
next
  case False
  then have "last xs \<in> set xs" by simp
  moreover have "0 \<notin> set xs"
    using assms by (auto simp: holds_def dest: chain_seg_nonnull)
  ultimately have "last xs \<noteq> 0" by auto
  then show ?thesis using False assms by (simp add: holds_def)
qed

lemma holds_size_null: "holds h q xs \<Longrightarrow> size_' q = 0 \<longleftrightarrow> xs = []"
  by (auto simp: holds_def unat_eq_0 [symmetric] simp del: unat_eq_0)

lemma holds_last_next: "holds h q xs \<Longrightarrow> xs \<noteq> [] \<Longrightarrow> h (last_' q) = Some 0"
  by (auto simp: holds_def dest: chain_last_next)

lemma holds_unique: "holds h q xs \<Longrightarrow> holds h q ys \<Longrightarrow> xs = ys"
  by (auto simp: holds_def dest: chain_unique)

lemma holds_AssertCorrect: "holds h q xs \<Longrightarrow> AssertCorrect h q = Inr ()"
  using holds_root_null [of h q xs] holds_last_null [of h q xs] holds_last_next [of h q xs]
  by (auto simp: AssertCorrect_def get_next_def)

lemma holds_well_formed: 
  assumes "holds h q xs" shows "well_formed h q"
proof -
  have "iterate h (unat (size_' q)) (root_' q) = Some xs"
    using assms by (auto simp: holds_def dest: iterate_chain)
  moreover have "distinct xs" using assms by (auto simp: holds_def dest: chain_distinct)
  ultimately show ?thesis
    using holds_root_null [OF assms] holds_last_null [OF assms] holds_size_null [OF assms]
      holds_last_next [OF assms] assms
    by (auto simp: well_formed_def holds_def)
qed


section \<open>Insertion\<close>

lemma unat_succ_length:
  fixes sz :: size_t
  assumes "unat sz = n" and "Suc n < 2 ^ 64"
  shows "unat (sz + 1) = Suc n"
proof -
  have "unat sz + unat (1 :: size_t) < 2 ^ LENGTH(64)" using assms by simp
  then have "unat (sz + 1) = unat sz + unat (1 :: size_t)"
    by (simp only: unat_add_lem)
  then show ?thesis using assms by simp
qed

lemma link_node_holds:
  assumes q: "holds h q xs" and n: "n \<noteq> 0" "n \<notin> set xs" "h n = Some 0"
  shows "\<exists>h' q'. link_node n h q = Inr (h', q') \<and> holds h' q' (xs @ [n]) \<and>
           h' = (if xs = [] then h else h(last xs \<mapsto> n)) \<and>
           q' = q\<lparr>root_' := (if xs = [] then n else root_' q), last_' := n, size_' := size_' q + 1\<rparr>"
proof (cases "xs = []")
  case True
  then have root: "root_' q = 0" using holds_root_null [OF q] by simp
  have "unat (size_' q + 1) = Suc 0"
    using q True by (intro unat_succ_length) (simp_all add: holds_def)
  then show ?thesis
    using True root n by (simp add: link_node_def holds_def)
next
  case False
  define l where "l = last xs"
  define bl where "bl = butlast xs"
  have xs: "xs = bl @ [l]" using False by (simp add: l_def bl_def)
  have root: "root_' q \<noteq> 0" using holds_root_null [OF q] False by simp
  have lastq: "last_' q = l" using q False by (simp add: holds_def l_def)
  have seg: "chain_seg h (root_' q) bl l" and l: "l \<noteq> 0" "h l = Some 0"
    using q by (auto simp: holds_def xs chain_seg_snoc)
  have dist: "distinct xs" using q by (auto simp: holds_def dest: chain_distinct)
  then have lbl: "l \<notin> set bl" by (simp add: xs)
  have nl: "n \<noteq> l" using n(2) by (auto simp: xs)
  have "chain_seg (h(l \<mapsto> n)) (root_' q) bl l"
    using seg lbl by (simp add: chain_seg_frame)
  moreover have "chain_seg (h(l \<mapsto> n)) l [l, n] 0"
    using l n nl by simp
  ultimately have chain: "chain_seg (h(l \<mapsto> n)) (root_' q) (xs @ [n]) 0"
    unfolding xs append_assoc chain_seg_append by (intro exI [of _ l]) simp
  then have "length (xs @ [n]) < 2 ^ 64" by (rule chain_length)
  then have "unat (size_' q + 1) = Suc (length xs)"
    using q by (intro unat_succ_length) (simp_all add: holds_def)
  then show ?thesis
    using False root lastq l chain by (simp add: link_node_def holds_def set_next_def l_def)
qed

lemma Alloc_answer:
  "responses allocator = ptr # rest \<Longrightarrow> IsAligned ptr alignment \<Longrightarrow>
   Alloc allocator sz alignment =
     (ptr, allocator\<lparr>responses := rest, requests := requests allocator @ [(sz, alignment)]\<rparr>)"
  by (simp add: Alloc_def)

lemma Alloc_exhausted:
  "responses allocator = [] \<Longrightarrow> fst (Alloc allocator sz alignment) = 0"
  by (simp add: Alloc_def)

lemma Alloc_honours_alignment:
  "fst (Alloc allocator sz alignment) = 0 \<or> IsAligned (fst (Alloc allocator sz alignment)) alignment"
  by (simp add: Alloc_def split: list.splits)

lemma Node_Create_cases:
  assumes "valid_layout cfg" and "size_fits cfg dataSize"
  shows "Node_Create cfg allocator dataSize h =
     (case Alloc allocator (fst (GetSizeAndAlignmentForDataSize cfg dataSize))
             (max (alignof_Node cfg) (DataAlignment cfg)) of (ptr, allocator') \<Rightarrow>
        if ptr = 0 then Inl OutOfMemory else Inr (ptr, allocator', h(ptr \<mapsto> 0)))"
proof -
  obtain totalSize
    where g: "GetSizeAndAlignmentForDataSize cfg dataSize
                = (totalSize, max (alignof_Node cfg) (DataAlignment cfg))"
    by (simp add: GetSizeAndAlignmentForDataSize_def Let_def)
  with fit_word [OF assms] have fit: "DataOffset cfg + dataSize \<le> totalSize" by simp
  obtain ptr allocator' where
    a: "Alloc allocator totalSize (max (alignof_Node cfg) (DataAlignment cfg)) = (ptr, allocator')"
    by (cases "Alloc allocator totalSize (max (alignof_Node cfg) (DataAlignment cfg))")
  from Alloc_honours_alignment [of allocator totalSize "max (alignof_Node cfg) (DataAlignment cfg)"]
  have "ptr = 0 \<or> IsAligned ptr (max (alignof_Node cfg) (DataAlignment cfg))"
    by (simp add: a)
  then show ?thesis using fit by (auto simp: Node_Create_def g a)
qed

lemma holds_frame: "a \<notin> set xs \<Longrightarrow> holds (h(a := v)) q xs = holds h q xs"
  by (simp add: holds_def chain_seg_frame)

lemma holds_live: "holds h q xs \<Longrightarrow> set xs \<subseteq> dom h"
  by (auto simp: holds_def dest: chain_seg_live)

lemma holds_fresh: "holds h q xs \<Longrightarrow> h a = None \<Longrightarrow> a \<notin> set xs"
  using holds_live [of h q xs] by auto

lemma holds_allocator [simp]: "holds h (p\<lparr>allocator_' := a\<rparr>) xs = holds h p xs"
  by (simp add: holds_def)

lemma total_alignment: "snd (GetSizeAndAlignmentForDataSize cfg dataSize) = max (alignof_Node cfg) (DataAlignment cfg)"
  by (simp add: GetSizeAndAlignmentForDataSize_def Let_def)

lemma total_size: "fst (GetSizeAndAlignmentForDataSize cfg dataSize) =
    AlignUp (sizeof_Node cfg + AlignUp dataSize (DataAlignment cfg)) (max (alignof_Node cfg) (DataAlignment cfg))"
  by (simp add: GetSizeAndAlignmentForDataSize_def Let_def)

lemma Producer_Insert_holds:
  assumes cfg: "valid_layout cfg" and fits: "size_fits cfg dataSize"
    and p: "holds h p xs"
    and answer: "responses (allocator_' p) = ptr # rest" "ptr \<noteq> 0"
      "IsAligned ptr (max (alignof_Node cfg) (DataAlignment cfg))"
    and fresh: "h ptr = None"
  shows "\<exists>h' p'. Producer_Insert cfg dataSize (h, p) = Inr (ptr, h', p') \<and>
           holds h' p' (xs @ [ptr]) \<and>
           h' = (if xs = [] then h(ptr \<mapsto> 0) else h(ptr \<mapsto> 0, last xs \<mapsto> ptr)) \<and>
           p' = p\<lparr>root_' := (if xs = [] then ptr else root_' p), last_' := ptr,
                  size_' := size_' p + 1,
                  allocator_' := (allocator_' p)\<lparr>responses := rest,
                    requests := requests (allocator_' p) @ [GetSizeAndAlignmentForDataSize cfg dataSize]\<rparr>\<rparr>"
proof -
  let ?a = "(allocator_' p)\<lparr>responses := rest,
              requests := requests (allocator_' p) @ [GetSizeAndAlignmentForDataSize cfg dataSize]\<rparr>"
  let ?h1 = "h(ptr \<mapsto> 0)"
  have notin: "ptr \<notin> set xs" using p fresh by (rule holds_fresh)
  have create: "Node_Create cfg (allocator_' p) dataSize h = Inr (ptr, ?a, ?h1)"
    using answer
    by (simp add: Node_Create_cases [OF cfg fits] Alloc_answer total_alignment prod_eq_iff)
  have "holds ?h1 (p\<lparr>allocator_' := ?a\<rparr>) xs"
    using p notin by (simp add: holds_frame)
  from link_node_holds [OF this answer(2) notin]
  obtain h' p' where link: "link_node ptr ?h1 (p\<lparr>allocator_' := ?a\<rparr>) = Inr (h', p')"
    and h': "holds h' p' (xs @ [ptr])"
    and eqs: "h' = (if xs = [] then ?h1 else ?h1(last xs \<mapsto> ptr))"
      "p' = p\<lparr>allocator_' := ?a\<rparr>\<lparr>root_' := (if xs = [] then ptr else root_' (p\<lparr>allocator_' := ?a\<rparr>)),
               last_' := ptr, size_' := size_' (p\<lparr>allocator_' := ?a\<rparr>) + 1\<rparr>"
    by auto
  have "root_' p' \<noteq> 0" using holds_root_null [OF h'] by simp
  then have "Producer_Insert cfg dataSize (h, p) = Inr (ptr, h', p')"
    using holds_AssertCorrect [OF p] holds_AssertCorrect [OF h'] create link
    by (simp add: Producer_Insert_def)
  then show ?thesis using h' eqs by simp
qed


section \<open>Publishing\<close>

lemma chain_seg_cong:
  "(\<And>a. a \<in> set xs \<Longrightarrow> h' a = h a) \<Longrightarrow> chain_seg h' p xs q = chain_seg h p xs q"
  by (induction xs arbitrary: p) (auto split: option.splits)

lemma holds_cong:
  "(\<And>a. a \<in> set xs \<Longrightarrow> h' a = h a) \<Longrightarrow> holds h' q xs = holds h q xs"
  by (simp add: holds_def chain_seg_cong [of xs h' h])

lemma holds_mutex [simp]: "holds h (owner\<lparr>mutex_' := m\<rparr>) xs = holds h owner xs"
  by (simp add: holds_def)

lemma holds_empty: "holds h q [] \<longleftrightarrow> root_' q = 0 \<and> last_' q = 0 \<and> size_' q = 0"
  by (auto simp: holds_def unat_eq_0 [symmetric] simp del: unat_eq_0)

lemma holds_fields:
  assumes "holds h q xs" and "xs \<noteq> []"
  shows "root_' q = hd xs" "root_' q \<noteq> 0" "last_' q = last xs" "last_' q \<noteq> 0"
    "h (last xs) = Some 0" "size_' q \<noteq> 0"
  using assms holds_root_null [OF assms(1)] holds_last_null [OF assms(1)]
    holds_size_null [OF assms(1)] holds_last_next [OF assms(1)]
    chain_seg_hd [of h "root_' q" xs 0]
  by (auto simp: holds_def)

lemma unat_add_length:
  fixes a b :: size_t
  assumes "unat a = m" "unat b = n" "m + n < 2 ^ 64"
  shows "unat (a + b) = m + n"
proof -
  have "unat a + unat b < 2 ^ LENGTH(64)" using assms by simp
  then have "unat (a + b) = unat a + unat b" by (simp only: unat_add_lem)
  then show ?thesis using assms by simp
qed

lemma Producer_Publish_empty:
  assumes "holds h p []"
  shows "Producer_Publish (h, p, owner) = Inr (h, p, owner)"
  using holds_AssertCorrect [OF assms] holds_root_null [OF assms]
  by (simp add: Producer_Publish_def)

lemma Producer_Publish_busy:
  assumes "holds h p ps" "ps \<noteq> []" "locked (mutex_' owner)"
  shows "Producer_Publish (h, p, owner) = Inl SpinLockBusy"
  using holds_AssertCorrect [OF assms(1)] holds_root_null [OF assms(1)] assms(2,3)
  by (simp add: Producer_Publish_def lock_def)

lemma Producer_Publish_holds:
  assumes p: "holds h p ps" and r: "holds h owner rs" and disj: "set ps \<inter> set rs = {}"
    and free: "\<not> locked (mutex_' owner)" and ne: "ps \<noteq> []"
  shows "\<exists>h' owner'. Producer_Publish (h, p, owner) = Inr (h', p\<lparr>root_' := 0, last_' := 0, size_' := 0\<rparr>, owner') \<and>
           holds h' owner' (rs @ ps) \<and>
           h' = (if rs = [] then h else h(last rs \<mapsto> root_' p)) \<and>
           owner' = owner\<lparr>root_' := (if rs = [] then root_' p else root_' owner), last_' := last_' p,
                      size_' := size_' owner + size_' p,
                      mutex_' := \<lparr>locked = False, acquisitions = acquisitions (mutex_' owner) + 1\<rparr>\<rparr>"
proof -
  let ?m = "(mutex_' owner)\<lparr>locked := True, acquisitions := acquisitions (mutex_' owner) + 1\<rparr>"
  let ?h' = "if rs = [] then h else h(last rs \<mapsto> root_' p)"
  let ?owner' = "owner\<lparr>root_' := (if rs = [] then root_' p else root_' owner), last_' := last_' p,
                      size_' := size_' owner + size_' p,
                      mutex_' := \<lparr>locked = False, acquisitions = acquisitions (mutex_' owner) + 1\<rparr>\<rparr>"
  have lock: "lock (mutex_' owner) = Inr ?m" using free by (simp add: lock_def)
  have proot: "root_' p \<noteq> 0" "root_' p = hd ps"
    using p ne chain_seg_hd [of h "root_' p" ps 0] by (auto simp: holds_def)
  have plast: "last_' p = last ps" using p ne by (simp add: holds_def)
  have chain: "chain_seg ?h' (root_' ?owner') (rs @ ps) 0"
  proof (cases "rs = []")
    case True
    then show ?thesis using p by (simp add: holds_def)
  next
    case False
    define l where "l = last rs"
    define bl where "bl = butlast rs"
    have rs: "rs = bl @ [l]" using False by (simp add: l_def bl_def)
    have seg: "chain_seg h (root_' owner) bl l" and l: "l \<noteq> 0" "h l = Some 0"
      using r by (auto simp: holds_def rs chain_seg_snoc)
    have "distinct rs" using r by (auto simp: holds_def dest: chain_distinct)
    then have lbl: "l \<notin> set bl" by (simp add: rs)
    have lps: "l \<notin> set ps" using disj by (auto simp: rs)
    have "chain_seg (h(l \<mapsto> root_' p)) (root_' owner) bl l"
      using seg lbl by (simp add: chain_seg_frame)
    moreover have "chain_seg (h(l \<mapsto> root_' p)) (root_' p) ps 0"
      using p lps by (simp add: chain_seg_frame holds_def)
    ultimately have "chain_seg (h(l \<mapsto> root_' p)) (root_' owner) (bl @ l # ps) 0"
      unfolding chain_seg_append using l by (intro exI [of _ l]) simp
    then show ?thesis using False by (simp add: rs l_def [symmetric])
  qed
  then have "length (rs @ ps) < 2 ^ 64" by (rule chain_length)
  then have "unat (size_' owner + size_' p) = length rs + length ps"
    using p r by (intro unat_add_length) (simp_all add: holds_def)
  with chain have final: "holds ?h' ?owner' (rs @ ps)"
    using ne plast by (simp add: holds_def)
  have pf: "root_' p \<noteq> 0" "last_' p = last ps" "last ps \<noteq> 0" "h (last ps) = Some 0"
    using holds_fields [OF p ne] by simp_all
  have "Producer_Publish (h, p, owner) = Inr (?h', p\<lparr>root_' := 0, last_' := 0, size_' := 0\<rparr>, ?owner')"
  proof (cases "rs = []")
    case True
    then have "root_' owner = 0" "last_' owner = 0"
      using r by (simp_all add: holds_empty)
    then show ?thesis
      using True pf free
      by (simp add: Producer_Publish_def AssertCorrect_def get_next_def lock_def unlock_def Let_def)
  next
    case False
    have rf: "root_' owner \<noteq> 0" "last_' owner = last rs" "last rs \<noteq> 0" "h (last rs) = Some 0"
      using holds_fields [OF r False] by simp_all
    have "last ps \<in> set ps" "last rs \<in> set rs" using ne False by simp_all
    then have "last rs \<noteq> last ps" using disj by auto
    then show ?thesis
      using False pf rf free
      by (simp add: Producer_Publish_def AssertCorrect_def get_next_def set_next_def lock_def
          unlock_def Let_def)
  qed
  with final show ?thesis by blast
qed


section \<open>Extraction\<close>

lemma unat_pred_length:
  fixes sz :: size_t
  assumes "unat sz = Suc k"
  shows "unat (sz - 1) = k"
proof -
  have "sz \<noteq> 0" using assms by auto
  then have "unat (sz - 1) = unat sz - 1" by (rule unat_minus_one)
  then show ?thesis using assms by simp
qed

lemma holds_split:
  assumes "holds h st (ys @ n # zs)"
  shows "chain_seg h (root_' st) ys n" "n \<noteq> 0" "h n = Some (if zs = [] then 0 else hd zs)"
    "chain_seg h (if zs = [] then 0 else hd zs) zs 0"
    "distinct (ys @ n # zs)" "0 \<notin> set (ys @ n # zs)"
proof -
  have c: "chain_seg h (root_' st) (ys @ n # zs) 0" using assms by (simp add: holds_def)
  then obtain nx where 1: "chain_seg h (root_' st) ys n" "n \<noteq> 0" "h n = Some nx" "chain_seg h nx zs 0"
    by (auto simp: chain_seg_append split: option.splits)
  have "nx = (if zs = [] then 0 else hd zs)"
    using 1(4) chain_seg_hd [of h nx zs 0] by (cases zs) auto
  with 1 show "chain_seg h (root_' st) ys n" "n \<noteq> 0" "h n = Some (if zs = [] then 0 else hd zs)"
    "chain_seg h (if zs = [] then 0 else hd zs) zs 0" by simp_all
  show "distinct (ys @ n # zs)" using c by (rule chain_distinct)
  show "0 \<notin> set (ys @ n # zs)" using c by (rule chain_seg_nonnull)
qed

lemma ExtractUnsafe_holds:
  assumes st: "holds h st (ys @ n # zs)" and prev: "prev = (if ys = [] then 0 else last ys)"
  shows "\<exists>h' st'. ExtractUnsafe prev (h, st) = Inr ((n, if zs = [] then 0 else hd zs), h', st') \<and>
     holds h' st' (ys @ zs) \<and> h' n = Some 0 \<and> (\<forall>a. a \<noteq> n \<and> a \<noteq> prev \<longrightarrow> h' a = h a) \<and>
     size_' st' = size_' st - 1 \<and> last_' st' = (if zs = [] then prev else last_' st) \<and>
     mutex_' st' = mutex_' st"
proof -
  let ?nx = "if zs = [] then 0 else hd zs"
  note sp = holds_split [OF st]
  have stf: "root_' st \<noteq> 0" "last_' st \<noteq> 0" "h (last_' st) = Some 0"
    using holds_fields [OF st] by simp_all
  have lastq: "last_' st = last (n # zs)" using st by (simp add: holds_def)
  have size: "unat (size_' st - 1) = length (ys @ zs)"
    using st by (intro unat_pred_length) (simp add: holds_def)
  have nxz: "zs \<noteq> [] \<Longrightarrow> hd zs \<noteq> 0"
    using sp(6) by (cases zs) auto
  have lastn: "zs \<noteq> [] \<Longrightarrow> last_' st \<noteq> n"
    using lastq sp(5) last_in_set [of zs] by auto
  show ?thesis
  proof (cases "ys = []")
    case True
    let ?h' = "h(n \<mapsto> 0)"
    have root: "root_' st = n" using sp(1) True by simp
    have nzs: "n \<notin> set zs" using sp(5) by simp
    have chain: "chain_seg ?h' ?nx zs 0" using sp(4) nzs by (simp add: chain_seg_frame)
    show ?thesis
    proof (cases "zs = []")
      case zs: True
      let ?st' = "st\<lparr>root_' := 0, last_' := 0, size_' := size_' st - 1\<rparr>"
      have "holds ?h' ?st' (ys @ zs)"
        using True zs size by (simp add: holds_def)
      moreover have "last_' st = n" using lastq zs by simp
      then have "ExtractUnsafe prev (h, st) = Inr ((n, ?nx), ?h', ?st')"
        using True zs prev root sp(2,3)
        by (simp add: ExtractUnsafe_def AssertCorrect_def get_next_def set_next_def Let_def)
      ultimately show ?thesis using zs prev True by auto
    next
      case zs: False
      let ?st' = "st\<lparr>root_' := hd zs, size_' := size_' st - 1\<rparr>"
      have "holds ?h' ?st' (ys @ zs)"
        using True zs size chain lastq by (simp add: holds_def)
      moreover have "ExtractUnsafe prev (h, st) = Inr ((n, ?nx), ?h', ?st')"
        using True zs prev root sp(2,3) stf(2,3) nxz lastn
        by (simp add: ExtractUnsafe_def AssertCorrect_def get_next_def set_next_def Let_def)
      ultimately show ?thesis using zs by auto
    qed
  next
    case False
    define l where "l = last ys"
    define bl where "bl = butlast ys"
    have ys: "ys = bl @ [l]" using False by (simp add: l_def bl_def)
    have pl: "prev = l" using prev False by (simp add: l_def)
    let ?h' = "h(l \<mapsto> 0, n \<mapsto> 0, l \<mapsto> ?nx)"
    have seg: "chain_seg h (root_' st) bl l" and l: "l \<noteq> 0" "h l = Some n"
      using sp(1) by (auto simp: ys chain_seg_snoc)
    have ne: "l \<noteq> n" "l \<notin> set bl" "n \<notin> set bl" "l \<notin> set zs" "n \<notin> set zs"
      using sp(5) by (auto simp: ys)
    have "chain_seg ?h' (root_' st) bl l = chain_seg h (root_' st) bl l"
      by (rule chain_seg_cong) (use ne in auto)
    then have "chain_seg ?h' (root_' st) bl l" using seg by (simp only:)
    moreover have "chain_seg ?h' ?nx zs 0 = chain_seg h ?nx zs 0"
      by (rule chain_seg_cong) (use ne in auto)
    then have "chain_seg ?h' ?nx zs 0" using sp(4) by (simp only:)
    ultimately have chain: "chain_seg ?h' (root_' st) (bl @ l # zs) 0"
      unfolding chain_seg_append using l by (intro exI [of _ l]) simp
    have lastl: "last_' st \<noteq> l"
      using lastq ne last_in_set [of zs] by (cases "zs = []") auto
    have frame: "\<forall>a. a \<noteq> n \<and> a \<noteq> prev \<longrightarrow> ?h' a = h a" using pl by simp
    have hn: "?h' n = Some 0" using ne(1) by simp
    show ?thesis
    proof (cases "zs = []")
      case zs: True
      let ?st' = "st\<lparr>last_' := l, size_' := size_' st - 1\<rparr>"
      have lastq': "last_' st = n" using lastq zs by simp
      have "holds ?h' ?st' (ys @ zs)"
        using zs size chain by (simp add: holds_def ys)
      moreover have "ExtractUnsafe prev (h, st) = Inr ((n, ?nx), ?h', ?st')"
        using zs pl l sp(2,3) stf(1) ne(1) lastq'
        by (simp add: ExtractUnsafe_def AssertCorrect_def get_next_def set_next_def Let_def)
      ultimately show ?thesis using zs pl frame hn by (intro exI [of _ ?h'] exI [of _ ?st']) simp
    next
      case zs: False
      let ?st' = "st\<lparr>size_' := size_' st - 1\<rparr>"
      have "holds ?h' ?st' (ys @ zs)"
        using zs size chain lastq by (simp add: holds_def ys)
      moreover have "ExtractUnsafe prev (h, st) = Inr ((n, ?nx), ?h', ?st')"
        using zs pl l sp(2,3) stf ne(1) nxz lastn lastl
        by (simp add: ExtractUnsafe_def AssertCorrect_def get_next_def set_next_def Let_def)
      ultimately show ?thesis using zs pl frame hn by (intro exI [of _ ?h'] exI [of _ ?st']) simp
    qed
  qed
qed

lemma Deleter_single: "h n = Some 0 \<Longrightarrow> Deleter h n = Some (h(n := None))"
  by (subst Deleter.simps) simp

lemma EraseAndAdvance_holds:
  assumes st: "holds h owner (ys @ n # zs)" and it: "positioned it ys n"
  shows "\<exists>h' owner'. EraseAndAdvance (h, owner, it)
             = Inr (h', owner', it\<lparr>node_' := (if zs = [] then 0 else hd zs)\<rparr>) \<and>
     holds h' owner' (ys @ zs) \<and> h' n = None \<and>
     (\<forall>a. a \<noteq> n \<and> a \<noteq> previousNode_' it \<longrightarrow> h' a = h a) \<and>
     size_' owner' = size_' owner - 1 \<and>
     last_' owner' = (if zs = [] then previousNode_' it else last_' owner) \<and>
     mutex_' owner' = mutex_' owner"
proof -
  have prev: "previousNode_' it = (if ys = [] then 0 else last ys)"
    using it by (simp add: positioned_def)
  from ExtractUnsafe_holds [OF st prev] obtain h1 owner' where
    ex: "ExtractUnsafe (previousNode_' it) (h, owner) = Inr ((n, if zs = [] then 0 else hd zs), h1, owner')"
    and h1: "holds h1 owner' (ys @ zs)" "h1 n = Some 0"
      "\<forall>a. a \<noteq> n \<and> a \<noteq> previousNode_' it \<longrightarrow> h1 a = h a"
    and owner': "size_' owner' = size_' owner - 1"
      "last_' owner' = (if zs = [] then previousNode_' it else last_' owner)"
      "mutex_' owner' = mutex_' owner"
    by blast
  have "n \<notin> set (ys @ zs)" using holds_split(5) [OF st] by auto
  then have "holds (h1(n := None)) owner' (ys @ zs)"
    using h1(1) by (simp add: holds_frame)
  moreover have "EraseAndAdvance (h, owner, it)
      = Inr (h1(n := None), owner', it\<lparr>node_' := (if zs = [] then 0 else hd zs)\<rparr>)"
    using ex h1(2) by (simp add: EraseAndAdvance_def Deleter_single)
  ultimately show ?thesis using h1(3) owner' by auto
qed

lemma Consumer_Insert_holds:
  assumes c: "holds h c cs" and n: "n \<noteq> 0" "n \<notin> set cs" "h n = Some 0"
  shows "\<exists>h' c'. Consumer_Insert n (h, c) = Inr (h', c') \<and> holds h' c' (cs @ [n]) \<and>
           h' = (if cs = [] then h else h(last cs \<mapsto> n)) \<and>
           c' = c\<lparr>root_' := (if cs = [] then n else root_' c), last_' := n, size_' := size_' c + 1\<rparr>"
proof -
  from link_node_holds [OF c n] obtain h' c' where
    link: "link_node n h c = Inr (h', c')" and h': "holds h' c' (cs @ [n])"
    and eqs: "h' = (if cs = [] then h else h(last cs \<mapsto> n))"
      "c' = c\<lparr>root_' := (if cs = [] then n else root_' c), last_' := n, size_' := size_' c + 1\<rparr>"
    by blast
  have "Consumer_Insert n (h, c) = Inr (h', c')"
    using holds_AssertCorrect [OF c] holds_AssertCorrect [OF h'] link
    by (simp add: Consumer_Insert_def)
  then show ?thesis using h' eqs by blast
qed

lemma MoveAndAdvance_holds:
  assumes st: "holds h owner (ys @ n # zs)" and it: "positioned it ys n"
    and c: "holds h consumer cs" and disj: "set cs \<inter> set (ys @ n # zs) = {}"
  shows "\<exists>h' owner' consumer'. MoveAndAdvance (h, owner, consumer, it)
             = Inr (h', owner', consumer', it\<lparr>node_' := (if zs = [] then 0 else hd zs)\<rparr>) \<and>
     holds h' owner' (ys @ zs) \<and> holds h' consumer' (cs @ [n]) \<and>
     (\<forall>a. a \<noteq> n \<and> a \<noteq> previousNode_' it \<and> a \<noteq> last_' consumer \<longrightarrow> h' a = h a) \<and>
     size_' owner' = size_' owner - 1 \<and>
     last_' owner' = (if zs = [] then previousNode_' it else last_' owner) \<and>
     mutex_' owner' = mutex_' owner \<and>
     consumer' = consumer\<lparr>root_' := (if cs = [] then n else root_' consumer), last_' := n,
              size_' := size_' consumer + 1\<rparr>"
proof -
  have prev: "previousNode_' it = (if ys = [] then 0 else last ys)"
    using it by (simp add: positioned_def)
  from ExtractUnsafe_holds [OF st prev] obtain h1 owner' where
    ex: "ExtractUnsafe (previousNode_' it) (h, owner) = Inr ((n, if zs = [] then 0 else hd zs), h1, owner')"
    and h1: "holds h1 owner' (ys @ zs)" "h1 n = Some 0"
      "\<forall>a. a \<noteq> n \<and> a \<noteq> previousNode_' it \<longrightarrow> h1 a = h a"
    and owner': "size_' owner' = size_' owner - 1"
      "last_' owner' = (if zs = [] then previousNode_' it else last_' owner)"
      "mutex_' owner' = mutex_' owner"
    by blast
  have n: "n \<noteq> 0" "n \<notin> set cs" using holds_split(2) [OF st] disj by auto
  have prevcs: "previousNode_' it \<notin> set cs"
  proof (cases "ys = []")
    case True
    then have "previousNode_' it = 0" using prev by simp
    moreover have "0 \<notin> set cs" using c by (auto simp: holds_def dest: chain_seg_nonnull)
    ultimately show ?thesis by simp
  next
    case False
    then have "previousNode_' it \<in> set ys" using prev by simp
    then show ?thesis using disj by auto
  qed
  have c1: "holds h1 consumer cs"
    using c n(2) prevcs h1(3) by (subst holds_cong [of cs h1 h]) auto
  from Consumer_Insert_holds [OF c1 n h1(2)] obtain h2 consumer' where
    ins: "Consumer_Insert n (h1, consumer) = Inr (h2, consumer')"
    and h2: "holds h2 consumer' (cs @ [n])" "h2 = (if cs = [] then h1 else h1(last cs \<mapsto> n))"
    and consumer': "consumer' = consumer\<lparr>root_' := (if cs = [] then n else root_' consumer), last_' := n,
              size_' := size_' consumer + 1\<rparr>"
    by blast
  have lastcs: "last cs \<notin> set (ys @ zs)" if "cs \<noteq> []"
  proof -
    from that have "last cs \<in> set cs" by simp
    with disj show ?thesis by auto
  qed
  have owner2: "holds h2 owner' (ys @ zs)"
    using h1(1) lastcs by (cases "cs = []") (simp_all add: h2(2) holds_frame)
  have lastc: "cs \<noteq> [] \<Longrightarrow> last_' consumer = last cs" using c by (simp add: holds_def)
  have frame: "\<forall>a. a \<noteq> n \<and> a \<noteq> previousNode_' it \<and> a \<noteq> last_' consumer \<longrightarrow> h2 a = h a"
    using h1(3) lastc by (cases "cs = []") (simp_all add: h2(2))
  have "MoveAndAdvance (h, owner, consumer, it)
      = Inr (h2, owner', consumer', it\<lparr>node_' := (if zs = [] then 0 else hd zs)\<rparr>)"
    using ex ins by (simp add: MoveAndAdvance_def)
  then show ?thesis using owner2 h2(1) frame owner' consumer' by blast
qed

section \<open>What an insertion requests and appends\<close>

lemma IsAligned_64_8: "IsAligned 64 (max (alignof_Node lp64_layout) (DataAlignment lp64_layout))"
  by (simp add: IsAligned_def lp64_layout_def)

lemma size_fits_lp64_24: "size_fits lp64_layout 24"
  by (simp add: lp64_layout_def size_fits_def AlignUp_def)

lemma holds_new_producer: "holds h (new_producer answers) []"
  by (simp add: holds_def new_producer_def)

text \<open>
  C6, as amended. For a valid layout, every \<open>dataSize\<close> whose size computation does not
  wrap around, a producer that holds the nodes \<open>xs\<close>, and an allocator that answers
  with a non-null pointer \<open>ptr\<close> that has the requested alignment and is not a live
  node: \<open>Producer::Insert\<close> returns \<open>ptr\<close>; it has asked the allocator, once, for
  \<open>AlignUp(sizeof(Node) + AlignUp(dataSize, DataAlignment), A)\<close> bytes with the alignment
  \<open>A = max(alignof(Node), DataAlignment)\<close>, which is as a number the sum of the node
  header and the rounded data size, rounded up to \<open>A\<close>; the \<open>next_\<close> of the new node is
  null; the producer now holds \<open>xs @ [ptr]\<close>; its size is one more; and no other node
  than the old last one has changed.
\<close>

theorem Producer_Insert_requests_and_appends:
  assumes "valid_layout cfg" and "size_fits cfg dataSize" and "holds h p xs"
    and "responses (allocator_' p) = ptr # rest" and "ptr \<noteq> 0"
    and "IsAligned ptr (max (alignof_Node cfg) (DataAlignment cfg))" and "h ptr = None"
  shows "\<exists>h' p'. Producer_Insert cfg dataSize (h, p) = Inr (ptr, h', p') \<and>
     requests (allocator_' p') = requests (allocator_' p) @
        [(AlignUp (sizeof_Node cfg + AlignUp dataSize (DataAlignment cfg))
            (max (alignof_Node cfg) (DataAlignment cfg)),
          max (alignof_Node cfg) (DataAlignment cfg))] \<and>
     unat (AlignUp (sizeof_Node cfg + AlignUp dataSize (DataAlignment cfg))
            (max (alignof_Node cfg) (DataAlignment cfg))) =
        round_up (unat (sizeof_Node cfg) + round_up (unat dataSize) (unat (DataAlignment cfg)))
          (unat (max (alignof_Node cfg) (DataAlignment cfg))) \<and>
     h' ptr = Some 0 \<and> holds h' p' (xs @ [ptr]) \<and> size_' p' = size_' p + 1 \<and>
     (\<forall>a. a \<noteq> ptr \<and> a \<noteq> last_' p \<longrightarrow> h' a = h a)"
proof -
  from Producer_Insert_holds [OF assms] obtain h' p' where
    ins: "Producer_Insert cfg dataSize (h, p) = Inr (ptr, h', p')"
    and h': "holds h' p' (xs @ [ptr])"
    and eqs: "h' = (if xs = [] then h(ptr \<mapsto> 0) else h(ptr \<mapsto> 0, last xs \<mapsto> ptr))"
      "p' = p\<lparr>root_' := (if xs = [] then ptr else root_' p), last_' := ptr,
                  size_' := size_' p + 1,
                  allocator_' := (allocator_' p)\<lparr>responses := rest,
                    requests := requests (allocator_' p) @ [GetSizeAndAlignmentForDataSize cfg dataSize]\<rparr>\<rparr>"
    by blast
  have notin: "ptr \<notin> set xs" using assms(3,7) by (rule holds_fresh)
  have lastp: "xs \<noteq> [] \<Longrightarrow> last_' p = last xs" using assms(3) by (simp add: holds_def)
  have "xs \<noteq> [] \<Longrightarrow> last xs \<noteq> ptr" using notin last_in_set [of xs] by auto
  then have 1: "h' ptr = Some 0" by (auto simp: eqs(1))
  have 2: "\<forall>a. a \<noteq> ptr \<and> a \<noteq> last_' p \<longrightarrow> h' a = h a"
    using lastp by (simp add: eqs(1))
  have 3: "requests (allocator_' p') = requests (allocator_' p) @
        [(AlignUp (sizeof_Node cfg + AlignUp dataSize (DataAlignment cfg))
            (max (alignof_Node cfg) (DataAlignment cfg)),
          max (alignof_Node cfg) (DataAlignment cfg))]"
    by (simp add: eqs(2) GetSizeAndAlignmentForDataSize_def Let_def)
  have 4: "unat (AlignUp (sizeof_Node cfg + AlignUp dataSize (DataAlignment cfg))
            (max (alignof_Node cfg) (DataAlignment cfg))) =
        round_up (unat (sizeof_Node cfg) + round_up (unat dataSize) (unat (DataAlignment cfg)))
          (unat (max (alignof_Node cfg) (DataAlignment cfg)))"
    using total_size_unat [OF assms(1,2)] by (simp add: total_size)
  have 5: "size_' p' = size_' p + 1" by (simp add: eqs(2))
  from ins 1 2 3 4 5 h' show ?thesis by blast
qed

text \<open>
  The first insertion of 24 bytes into a new producer on a 64-bit target asks for 32
  bytes with alignment 8.
\<close>

theorem Producer_Insert_requests_and_appends_witness:
  "valid_layout lp64_layout \<and> size_fits lp64_layout 24 \<and> holds Map.empty (new_producer [64]) [] \<and>
   responses (allocator_' (new_producer [64])) = 64 # [] \<and> (64 :: addr) \<noteq> 0 \<and>
   IsAligned 64 (max (alignof_Node lp64_layout) (DataAlignment lp64_layout)) \<and>
   (Map.empty :: node_heap) 64 = None \<and>
   (\<exists>h' p'. Producer_Insert lp64_layout 24 (Map.empty, new_producer [64]) = Inr (64, h', p') \<and>
      requests (allocator_' p') = [(32, 8)] \<and> h' 64 = Some 0 \<and> holds h' p' [64] \<and> size_' p' = 1)"
proof -
  have r: "responses (allocator_' (new_producer [64])) = 64 # []"
    by (simp add: new_producer_def)
  have n: "(64 :: addr) \<noteq> 0" by simp
  have e: "(Map.empty :: node_heap) 64 = None" by simp
  have q: "requests (allocator_' (new_producer [64])) = []" "size_' (new_producer [64]) = 0"
    by (simp_all add: new_producer_def)
  show ?thesis
    using Producer_Insert_requests_and_appends [OF valid_lp64_layout size_fits_lp64_24
        holds_new_producer r n IsAligned_64_8 e]
      valid_lp64_layout size_fits_lp64_24 holds_new_producer [of Map.empty "[64]"] r IsAligned_64_8
    by (auto simp: q lp64_layout_def AlignUp_def)
qed

text \<open>
  C6 as stated fails: with 8-byte nodes and a data alignment of 16, an insertion of one
  byte asks the allocator for 32 bytes, and not for the 24 bytes of
  \<open>sizeof(Node) + AlignUp(1, 16)\<close>.
\<close>

theorem Producer_Insert_request_counterexample:
  "Producer_Insert max_aligned_layout 1 (Map.empty, new_producer [64]) =
     Inr (64, [64 \<mapsto> 0],
          \<lparr>root_' = 64, last_' = 64, size_' = 1,
           allocator_' = \<lparr>responses = [], requests = [(32, 16)]\<rparr>\<rparr>) \<and>
   sizeof_Node max_aligned_layout + AlignUp 1 (DataAlignment max_aligned_layout) = 24"
  by (simp add: Producer_Insert_def Node_Create_def GetSizeAndAlignmentForDataSize_def
      DataOffset_def AlignUp_def Alloc_def IsAligned_def link_node_def AssertCorrect_def
      get_next_def new_producer_def max_aligned_layout_def Let_def)


section \<open>Node creation and allocation failure\<close>

lemma outcome_simps [simp]: "outcome (Inl (e, s)) = Inl e" "outcome (Inr x) = Inr x"
  by (simp_all add: outcome_def)

lemma stopping_simps [simp]: "stopping s (Inl e) = Inl (e, s)" "stopping s (Inr x) = Inr x"
  by (simp_all add: stopping_def)


lemma outcome_stopping [simp]: "outcome (stopping s r) = r"
  by (cases r) simp_all










section \<open>Publishing a producer\<close>

text \<open>
  C2. A producer that holds the nodes \<open>ps\<close> and a registry that holds the nodes \<open>rs\<close>,
  with no node in both. When the producer is empty, \<open>Publish\<close> returns with the heap,
  the producer and the registry as they were, and the lock untouched, held or not.
  When the producer is not empty and the lock is held, \<open>Publish\<close> has to wait for it.
  When the producer is not empty and the lock is free, \<open>Publish\<close> returns: the registry
  holds \<open>rs @ ps\<close>, its size is the sum of the two sizes (and the sum has not wrapped
  around), the producer is empty with null \<open>root_\<close> and \<open>last_\<close> and size 0, its
  allocator is unchanged, the lock has been taken once and is free again, and only the
  \<open>next_\<close> of the old last node of the registry has changed.
\<close>

theorem Producer_Publish_splices:
  assumes "holds h p ps" and "holds h owner rs" and "set ps \<inter> set rs = {}"
  shows "(ps = [] \<longrightarrow> Producer_Publish (h, p, owner) = Inr (h, p, owner)) \<and>
         (ps \<noteq> [] \<and> locked (mutex_' owner) \<longrightarrow> Producer_Publish (h, p, owner) = Inl SpinLockBusy) \<and>
         (ps \<noteq> [] \<and> \<not> locked (mutex_' owner) \<longrightarrow>
            (\<exists>h' p' owner'. Producer_Publish (h, p, owner) = Inr (h', p', owner') \<and>
               holds h' owner' (rs @ ps) \<and>
               size_' owner' = size_' owner + size_' p \<and>
               unat (size_' owner') = unat (size_' owner) + unat (size_' p) \<and>
               root_' p' = 0 \<and> last_' p' = 0 \<and> size_' p' = 0 \<and> holds h' p' [] \<and>
               allocator_' p' = allocator_' p \<and>
               \<not> locked (mutex_' owner') \<and>
               acquisitions (mutex_' owner') = acquisitions (mutex_' owner) + 1 \<and>
               (\<forall>a. a \<noteq> last_' owner \<longrightarrow> h' a = h a)))"
proof (intro conjI impI)
  assume "ps = []"
  with assms(1) show "Producer_Publish (h, p, owner) = Inr (h, p, owner)"
    by (simp add: Producer_Publish_empty)
next
  assume "ps \<noteq> [] \<and> locked (mutex_' owner)"
  with assms(1) show "Producer_Publish (h, p, owner) = Inl SpinLockBusy"
    by (simp add: Producer_Publish_busy)
next
  assume a: "ps \<noteq> [] \<and> \<not> locked (mutex_' owner)"
  then have free: "\<not> locked (mutex_' owner)" and ne: "ps \<noteq> []" by simp_all
  from Producer_Publish_holds [OF assms free ne] obtain h' owner' where
    pub: "Producer_Publish (h, p, owner) = Inr (h', p\<lparr>root_' := 0, last_' := 0, size_' := 0\<rparr>, owner')"
    and h': "holds h' owner' (rs @ ps)"
    and eqs: "h' = (if rs = [] then h else h(last rs \<mapsto> root_' p))"
      "owner' = owner\<lparr>root_' := (if rs = [] then root_' p else root_' owner), last_' := last_' p,
                      size_' := size_' owner + size_' p,
                      mutex_' := \<lparr>locked = False, acquisitions = acquisitions (mutex_' owner) + 1\<rparr>\<rparr>"
    by blast
  have lastr: "rs \<noteq> [] \<Longrightarrow> last_' owner = last rs" using assms(2) by (simp add: holds_def)
  have frame: "\<forall>a. a \<noteq> last_' owner \<longrightarrow> h' a = h a" using lastr by (simp add: eqs(1))
  have "unat (size_' owner') = unat (size_' owner) + unat (size_' p)"
    using h' assms(1,2) by (simp add: holds_def)
  moreover have "holds h' (p\<lparr>root_' := 0, last_' := 0, size_' := 0\<rparr>) []"
    by (simp add: holds_def)
  ultimately show "\<exists>h' p' owner'. Producer_Publish (h, p, owner) = Inr (h', p', owner') \<and>
               holds h' owner' (rs @ ps) \<and>
               size_' owner' = size_' owner + size_' p \<and>
               unat (size_' owner') = unat (size_' owner) + unat (size_' p) \<and>
               root_' p' = 0 \<and> last_' p' = 0 \<and> size_' p' = 0 \<and> holds h' p' [] \<and>
               allocator_' p' = allocator_' p \<and>
               \<not> locked (mutex_' owner') \<and>
               acquisitions (mutex_' owner') = acquisitions (mutex_' owner) + 1 \<and>
               (\<forall>a. a \<noteq> last_' owner \<longrightarrow> h' a = h a)"
    using pub h' frame by (simp add: eqs(2))
qed


text \<open>
  A producer holding the node 64 is published into a registry holding the node 128.
\<close>

theorem Producer_Publish_splices_witness:
  "holds [64 \<mapsto> 0, 128 \<mapsto> 0] (\<lparr>root_' = 64, last_' = 64, size_' = 1,
       allocator_' = \<lparr>responses = [], requests = []\<rparr>\<rparr> :: Producer) [64] \<and>
   holds [64 \<mapsto> 0, 128 \<mapsto> 0] (new_storage\<lparr>root_' := 128, last_' := 128, size_' := 1\<rparr>) [128] \<and>
   set [64 :: addr] \<inter> set [128] = {} \<and>
   (\<exists>h' p' owner'.
      Producer_Publish ([64 \<mapsto> 0, 128 \<mapsto> 0],
        \<lparr>root_' = 64, last_' = 64, size_' = 1, allocator_' = \<lparr>responses = [], requests = []\<rparr>\<rparr>,
        new_storage\<lparr>root_' := 128, last_' := 128, size_' := 1\<rparr>) = Inr (h', p', owner') \<and>
      holds h' owner' [128, 64] \<and> size_' owner' = 2 \<and>
      root_' p' = 0 \<and> last_' p' = 0 \<and> size_' p' = 0 \<and> acquisitions (mutex_' owner') = 1)"
proof -
  let ?h = "[64 \<mapsto> 0, 128 \<mapsto> (0 :: addr)] :: node_heap"
  let ?p = "\<lparr>root_' = 64, last_' = 64, size_' = 1,
       allocator_' = \<lparr>responses = [], requests = []\<rparr>\<rparr> :: Producer"
  let ?owner = "new_storage\<lparr>root_' := 128, last_' := 128, size_' := 1\<rparr>"
  have p: "holds ?h ?p [64]" by (simp add: holds_def)
  have r: "holds ?h ?owner [128]" by (simp add: holds_def new_storage_def)
  have d: "set [64 :: addr] \<inter> set [128] = {}" by simp
  have f: "\<not> locked (mutex_' ?owner)" "acquisitions (mutex_' ?owner) = 0" "size_' ?owner = 1"
    by (simp_all add: new_storage_def)
  show ?thesis
    using Producer_Publish_splices [OF p r d] p r d f
    by (auto simp del: holds_mutex)
qed

section \<open>Erasing and moving\<close>

lemma positioned_advance:
  "positioned it ys n \<Longrightarrow> positioned (it\<lparr>node_' := m\<rparr>) ys m"
  by (simp add: positioned_def)

text \<open>
  C3. A registry that holds \<open>ys @ n # zs\<close>, an iterator positioned on \<open>n\<close>, and a consumer
  that holds \<open>cs\<close>, disjoint from the registry. \<open>EraseAndAdvance\<close> returns: the registry
  holds \<open>ys @ zs\<close>, the node \<open>n\<close> is no longer live, the size is one less, \<open>last_\<close> is
  the predecessor when \<open>n\<close> was the last node and unchanged otherwise, and the consumer
  still holds \<open>cs\<close>. \<open>MoveAndAdvance\<close> returns: the registry holds \<open>ys @ zs\<close>, with
  the same size and \<open>last_\<close> as after an erasure, and the consumer holds \<open>cs @ [n]\<close>
  with a size one more and \<open>n\<close> as its \<open>last_\<close>. In both cases the iterator has kept its
  predecessor and points at the old successor of \<open>n\<close>, null at the end of the chain.
\<close>

theorem EraseAndAdvance_MoveAndAdvance_unlink:
  assumes "holds h owner (ys @ n # zs)" and "positioned it ys n"
    and "holds h consumer cs" and "set cs \<inter> set (ys @ n # zs) = {}"
  shows "(\<exists>h' owner'.
            EraseAndAdvance (h, owner, it)
              = Inr (h', owner', it\<lparr>node_' := (if zs = [] then 0 else hd zs)\<rparr>) \<and>
            holds h' owner' (ys @ zs) \<and> h' n = None \<and>
            size_' owner' = size_' owner - 1 \<and> unat (size_' owner') = unat (size_' owner) - 1 \<and>
            last_' owner' = (if zs = [] then previousNode_' it else last_' owner) \<and>
            holds h' consumer cs) \<and>
         (\<exists>h' owner' consumer'.
            MoveAndAdvance (h, owner, consumer, it)
              = Inr (h', owner', consumer', it\<lparr>node_' := (if zs = [] then 0 else hd zs)\<rparr>) \<and>
            holds h' owner' (ys @ zs) \<and> holds h' consumer' (cs @ [n]) \<and>
            size_' owner' = size_' owner - 1 \<and> unat (size_' owner') = unat (size_' owner) - 1 \<and>
            last_' owner' = (if zs = [] then previousNode_' it else last_' owner) \<and>
            size_' consumer' = size_' consumer + 1 \<and>
            unat (size_' consumer') = unat (size_' consumer) + 1 \<and> last_' consumer' = n) \<and>
         positioned (it\<lparr>node_' := (if zs = [] then 0 else hd zs)\<rparr>) ys (if zs = [] then 0 else hd zs)"
proof (intro conjI)
  from EraseAndAdvance_holds [OF assms(1,2)] obtain h' owner' where
    er: "EraseAndAdvance (h, owner, it)
             = Inr (h', owner', it\<lparr>node_' := (if zs = [] then 0 else hd zs)\<rparr>)"
    and h': "holds h' owner' (ys @ zs)" "h' n = None"
      "\<forall>a. a \<noteq> n \<and> a \<noteq> previousNode_' it \<longrightarrow> h' a = h a"
    and owner': "size_' owner' = size_' owner - 1"
      "last_' owner' = (if zs = [] then previousNode_' it else last_' owner)"
    by blast
  have prev: "previousNode_' it \<notin> set cs"
  proof (cases "ys = []")
    case True
    then have "previousNode_' it = 0" using assms(2) by (simp add: positioned_def)
    moreover have "0 \<notin> set cs" using assms(3) by (auto simp: holds_def dest: chain_seg_nonnull)
    ultimately show ?thesis by simp
  next
    case False
    then have "previousNode_' it \<in> set ys" using assms(2) by (simp add: positioned_def)
    then show ?thesis using assms(4) by auto
  qed
  have "n \<notin> set cs" using assms(4) by auto
  then have "holds h' consumer cs = holds h consumer cs"
    using prev h'(3) by (intro holds_cong) auto
  then have c: "holds h' consumer cs" using assms(3) by simp
  have "unat (size_' owner') = unat (size_' owner) - 1"
    using h'(1) assms(1) by (simp add: holds_def)
  with er h' owner' c show "\<exists>h' owner'.
            EraseAndAdvance (h, owner, it)
              = Inr (h', owner', it\<lparr>node_' := (if zs = [] then 0 else hd zs)\<rparr>) \<and>
            holds h' owner' (ys @ zs) \<and> h' n = None \<and>
            size_' owner' = size_' owner - 1 \<and> unat (size_' owner') = unat (size_' owner) - 1 \<and>
            last_' owner' = (if zs = [] then previousNode_' it else last_' owner) \<and>
            holds h' consumer cs"
    by blast
next
  from MoveAndAdvance_holds [OF assms] obtain h' owner' consumer' where
    mv: "MoveAndAdvance (h, owner, consumer, it)
             = Inr (h', owner', consumer', it\<lparr>node_' := (if zs = [] then 0 else hd zs)\<rparr>)"
    and h': "holds h' owner' (ys @ zs)" "holds h' consumer' (cs @ [n])"
    and owner': "size_' owner' = size_' owner - 1"
      "last_' owner' = (if zs = [] then previousNode_' it else last_' owner)"
    and consumer': "consumer' = consumer\<lparr>root_' := (if cs = [] then n else root_' consumer), last_' := n,
              size_' := size_' consumer + 1\<rparr>"
    by blast
  have "unat (size_' owner') = unat (size_' owner) - 1"
    using h'(1) assms(1) by (simp add: holds_def)
  moreover have "unat (size_' consumer') = unat (size_' consumer) + 1"
    using h'(2) assms(3) by (simp add: holds_def)
  moreover have "size_' consumer' = size_' consumer + 1" "last_' consumer' = n"
    by (simp_all add: consumer')
  ultimately show "\<exists>h' owner' consumer'.
            MoveAndAdvance (h, owner, consumer, it)
              = Inr (h', owner', consumer', it\<lparr>node_' := (if zs = [] then 0 else hd zs)\<rparr>) \<and>
            holds h' owner' (ys @ zs) \<and> holds h' consumer' (cs @ [n]) \<and>
            size_' owner' = size_' owner - 1 \<and> unat (size_' owner') = unat (size_' owner) - 1 \<and>
            last_' owner' = (if zs = [] then previousNode_' it else last_' owner) \<and>
            size_' consumer' = size_' consumer + 1 \<and>
            unat (size_' consumer') = unat (size_' consumer) + 1 \<and> last_' consumer' = n"
    using mv h' owner' by blast
next
  show "positioned (it\<lparr>node_' := (if zs = [] then 0 else hd zs)\<rparr>) ys (if zs = [] then 0 else hd zs)"
    using assms(2) by (rule positioned_advance)
qed

text \<open>
  The middle node of a registry of three nodes is erased, or moved to an empty consumer.
\<close>

theorem EraseAndAdvance_MoveAndAdvance_unlink_witness:
  "holds [16 \<mapsto> 32, 32 \<mapsto> 48, 48 \<mapsto> 0] (new_storage\<lparr>root_' := 16, last_' := 48, size_' := 3\<rparr>) ([16] @ 32 # [48]) \<and>
   positioned \<lparr>previousNode_' = 16, node_' = 32\<rparr> [16] 32 \<and>
   holds [16 \<mapsto> 32, 32 \<mapsto> 48, 48 \<mapsto> 0] empty_chain [] \<and>
   set [] \<inter> set ([16 :: addr] @ 32 # [48]) = {} \<and>
   (\<exists>h' owner'.
      EraseAndAdvance ([16 \<mapsto> 32, 32 \<mapsto> 48, 48 \<mapsto> 0],
          new_storage\<lparr>root_' := 16, last_' := 48, size_' := 3\<rparr>, \<lparr>previousNode_' = 16, node_' = 32\<rparr>)
        = Inr (h', owner', \<lparr>previousNode_' = 16, node_' = 48\<rparr>) \<and>
      holds h' owner' [16, 48] \<and> h' 32 = None \<and> size_' owner' = 2 \<and> last_' owner' = 48) \<and>
   (\<exists>h' owner' consumer'.
      MoveAndAdvance ([16 \<mapsto> 32, 32 \<mapsto> 48, 48 \<mapsto> 0],
          new_storage\<lparr>root_' := 16, last_' := 48, size_' := 3\<rparr>, empty_chain,
          \<lparr>previousNode_' = 16, node_' = 32\<rparr>)
        = Inr (h', owner', consumer', \<lparr>previousNode_' = 16, node_' = 48\<rparr>) \<and>
      holds h' owner' [16, 48] \<and> holds h' consumer' [32] \<and> size_' owner' = 2 \<and>
      size_' consumer' = 1 \<and> last_' consumer' = 32)"
proof -
  let ?h = "[16 \<mapsto> 32, 32 \<mapsto> 48, 48 \<mapsto> (0 :: addr)] :: node_heap"
  let ?owner = "new_storage\<lparr>root_' := 16, last_' := 48, size_' := 3\<rparr>"
  let ?it = "\<lparr>previousNode_' = 16, node_' = 32\<rparr>"
  have r: "holds ?h ?owner ([16] @ 32 # [48])" by (simp add: holds_def new_storage_def)
  have i: "positioned ?it [16] 32" by (simp add: positioned_def)
  have c: "holds ?h empty_chain []" by (simp add: holds_def empty_chain_def)
  have d: "set [] \<inter> set ([16 :: addr] @ 32 # [48]) = {}" by simp
  have f: "size_' ?owner = 3" "last_' ?owner = 48" "size_' empty_chain = 0"
    by (simp_all add: new_storage_def empty_chain_def)
  show ?thesis
    using EraseAndAdvance_MoveAndAdvance_unlink [OF r i c d] r i c d
    by (simp add: f) blast
qed

section \<open>The invariant of the system\<close>

lemma holds_truncate [simp]: "holds h (chain.truncate q) xs = holds h q xs"
  by (simp add: holds_def chain.truncate_def)

lemma holds_in_simps:
  "holds_in s Registry xs = holds (nodes s) (storage s) xs"
  "holds_in s (ProducerQueue i) xs = holds (nodes s) (producers s i) xs"
  "holds_in s (ConsumerQueue j) xs = holds (nodes s) (consumers s j) xs"
  by (simp_all add: holds_in_def queue_of_def)

lemma consistent_step:
  assumes c: "consistent s L"
    and new: "\<And>w. w \<in> W \<Longrightarrow> holds_in s' w (L' w)"
    and old: "\<And>w. w \<notin> W \<Longrightarrow> queue_of s' w = queue_of s w \<and> L' w = L w"
    and frame: "\<And>w a. w \<notin> W \<Longrightarrow> a \<in> set (L w) \<Longrightarrow> nodes s' a = nodes s a"
    and disj: "\<And>w w'. w \<noteq> w' \<Longrightarrow> set (L' w) \<inter> set (L' w') = {}"
    and it: "iterator_valid s' (L' Registry)"
  shows "consistent s' L'"
proof -
  have "holds_in s' w (L' w)" for w
  proof (cases "w \<in> W")
    case True
    then show ?thesis by (rule new)
  next
    case False
    have "holds (nodes s') (queue_of s w) (L w) = holds (nodes s) (queue_of s w) (L w)"
      by (rule holds_cong) (use False frame in auto)
    moreover have "holds (nodes s) (queue_of s w) (L w)"
      using c by (simp add: consistent_def holds_in_def)
    ultimately show ?thesis using old [OF False] by (simp add: holds_in_def)
  qed
  then show ?thesis using disj it by (simp add: consistent_def)
qed

lemma consistent_holds: "consistent s L \<Longrightarrow> holds_in s w (L w)"
  by (simp add: consistent_def)

lemma consistent_disjoint: "consistent s L \<Longrightarrow> w \<noteq> w' \<Longrightarrow> set (L w) \<inter> set (L w') = {}"
  by (simp add: consistent_def)

lemma consistent_live: "consistent s L \<Longrightarrow> a \<in> set (L w) \<Longrightarrow> nodes s a \<noteq> None"
  using holds_live [of "nodes s" "queue_of s w" "L w"]
  by (auto simp: consistent_def holds_in_def)

lemma consistent_initial: "consistent (initial allocators) (\<lambda>w. [])"
  by (auto simp: consistent_def holds_in_def queue_of_def initial_def holds_def
      iterator_valid_def empty_chain_def chain.truncate_def split: owner.splits)

lemma Node_Create_Inr:
  assumes "Node_Create cfg a d h = Inr (node, a', h1)"
  shows "node \<noteq> 0 \<and> h1 = h(node \<mapsto> 0) \<and> (\<exists>rest. responses a = node # rest)"
  using assms
  by (auto simp: Node_Create_def Alloc_def and_then_def RuntimeAssert_def
      split: prod.splits list.splits if_splits sum.splits)

lemma Producer_Insert_Inr:
  assumes p: "holds h p xs" and ins: "Producer_Insert cfg d (h, p) = Inr (node, h', p')"
    and fresh: "case responses (allocator_' p) of [] \<Rightarrow> True | ptr # _ \<Rightarrow> h ptr = None"
  shows "holds h' p' (xs @ [node]) \<and> h node = None \<and> (\<forall>a. a \<noteq> node \<and> a \<notin> set xs \<longrightarrow> h' a = h a)"
proof -
  from ins obtain r where cr: "Node_Create cfg (allocator_' p) d h = Inr r"
    by (auto simp: Producer_Insert_def and_then_eq_Inr)
  obtain n a' h1 where r: "r = (n, a', h1)" by (cases r)
  from Node_Create_Inr [OF cr [unfolded r]] obtain rest where
    n: "n \<noteq> 0" "h1 = h(n \<mapsto> 0)" "responses (allocator_' p) = n # rest"
    by blast
  have hn: "h n = None" using fresh n(3) by simp
  have notin: "n \<notin> set xs" using p hn by (rule holds_fresh)
  have "holds h1 (p\<lparr>allocator_' := a'\<rparr>) xs"
    using p notin by (simp add: n(2) holds_frame)
  moreover have "h1 n = Some 0" by (simp add: n(2))
  ultimately obtain h2 p2 where
    link: "link_node n h1 (p\<lparr>allocator_' := a'\<rparr>) = Inr (h2, p2)"
    and h2: "holds h2 p2 (xs @ [n])" "h2 = (if xs = [] then h1 else h1(last xs \<mapsto> n))"
    using link_node_holds [OF _ n(1) notin] by blast
  have "root_' p2 \<noteq> 0" using holds_root_null [OF h2(1)] by simp
  then have "Producer_Insert cfg d (h, p) = Inr (n, h2, p2)"
    using holds_AssertCorrect [OF p] holds_AssertCorrect [OF h2(1)] cr link
    by (simp add: Producer_Insert_def r)
  with ins have eq: "node = n" "h' = h2" "p' = p2" by simp_all
  have "\<forall>a. a \<noteq> n \<and> a \<notin> set xs \<longrightarrow> h2 a = h a"
    by (auto simp: h2(2) n(2))
  then show ?thesis using h2(1) hn by (simp add: eq)
qed

lemma consistent_nonnull: "consistent s L \<Longrightarrow> 0 \<notin> set (L w)"
  using chain_seg_nonnull [of "nodes s" "root_' (queue_of s w)" "L w" 0]
  by (auto simp: consistent_def holds_in_def holds_def)

lemma consistent_Insert:
  assumes c: "consistent s L" and f: "fresh_answer (Insert i d) s"
    and e: "exec cfg (Insert i d) s = Inr s'"
  shows "\<exists>L'. consistent s' L'"
proof -
  from e obtain node h' p' where
    ins: "Producer_Insert cfg d (nodes s, producers s i) = Inr (node, h', p')"
    and s': "s' = s\<lparr>nodes := h', producers := (producers s)(i := p')\<rparr>"
    by (auto simp: and_then_eq_Inr)
  let ?P = "L (ProducerQueue i)"
  have p: "holds (nodes s) (producers s i) ?P"
    using consistent_holds [OF c, of "ProducerQueue i"] by (simp add: holds_in_simps)
  from Producer_Insert_Inr [OF p ins] f have
    h': "holds h' p' (?P @ [node])" "nodes s node = None"
      "\<forall>a. a \<noteq> node \<and> a \<notin> set ?P \<longrightarrow> h' a = nodes s a"
    by simp_all
  let ?L' = "L(ProducerQueue i := ?P @ [node])"
  have fresh: "node \<notin> set (L w)" for w
    using consistent_live [OF c, of node w] h'(2) by auto
  have "consistent s' ?L'"
  proof (rule consistent_step [OF c, where W = "{ProducerQueue i}"])
    fix w assume "w \<in> {ProducerQueue i}"
    then show "holds_in s' w (?L' w)" using h'(1) by (simp add: s' holds_in_simps)
  next
    fix w assume "w \<notin> {ProducerQueue i}"
    then show "queue_of s' w = queue_of s w \<and> ?L' w = L w"
      by (cases w) (auto simp: s' queue_of_def)
  next
    fix w a assume w: "w \<notin> {ProducerQueue i}" and a: "a \<in> set (L w)"
    have "a \<noteq> node" using fresh [of w] a by auto
    moreover have "a \<notin> set ?P" using consistent_disjoint [OF c, of w "ProducerQueue i"] w a by auto
    ultimately show "nodes s' a = nodes s a" using h'(3) by (simp add: s')
  next
    fix w w' :: owner assume "w \<noteq> w'"
    then show "set (?L' w) \<inter> set (?L' w') = {}"
      using consistent_disjoint [OF c, of w w'] fresh [of w] fresh [of w'] by auto
  next
    show "iterator_valid s' (?L' Registry)"
      using c by (simp add: consistent_def iterator_valid_def s')
  qed
  then show ?thesis by blast
qed

lemma consistent_Publish:
  assumes c: "consistent s L" and e: "exec cfg (Publish i) s = Inr s'"
  shows "\<exists>L'. consistent s' L'"
proof -
  from e obtain h' p' owner' where
    pub: "Producer_Publish (nodes s, producers s i, storage s) = Inr (h', p', owner')"
    and s': "s' = s\<lparr>nodes := h', producers := (producers s)(i := p'), storage := owner'\<rparr>"
    by (auto simp: and_then_eq_Inr)
  let ?P = "L (ProducerQueue i)" and ?R = "L Registry"
  have p: "holds (nodes s) (producers s i) ?P"
    using consistent_holds [OF c, of "ProducerQueue i"] by (simp add: holds_in_simps)
  have r: "holds (nodes s) (storage s) ?R"
    using consistent_holds [OF c, of Registry] by (simp add: holds_in_simps)
  have d: "set ?P \<inter> set ?R = {}"
    using consistent_disjoint [OF c, of "ProducerQueue i" Registry] by simp
  show ?thesis
  proof (cases "?P = []")
    case True
    then have "Producer_Publish (nodes s, producers s i, storage s)
        = Inr (nodes s, producers s i, storage s)"
      using p by (simp add: Producer_Publish_empty)
    with pub have "h' = nodes s" "p' = producers s i" "owner' = storage s" by simp_all
    then have "s' = s" by (simp add: s')
    with c show ?thesis by blast
  next
    case False
    have free: "\<not> locked (mutex_' (storage s))"
      using Producer_Publish_busy [OF p False] pub by auto
    from Producer_Publish_holds [OF p r d free False] pub have
      h': "holds h' owner' (?R @ ?P)"
        "h' = (if ?R = [] then nodes s else (nodes s)(last ?R \<mapsto> root_' (producers s i)))"
      and p': "p' = (producers s i)\<lparr>root_' := 0, last_' := 0, size_' := 0\<rparr>"
      and unlocked: "\<not> locked (mutex_' owner')"
      by auto
    let ?L' = "L(Registry := ?R @ ?P, ProducerQueue i := [])"
    have "consistent s' ?L'"
    proof (rule consistent_step [OF c, where W = "{Registry, ProducerQueue i}"])
      fix w assume "w \<in> {Registry, ProducerQueue i}"
      then show "holds_in s' w (?L' w)"
        using h'(1) by (auto simp: s' holds_in_simps p' holds_empty)
    next
      fix w assume "w \<notin> {Registry, ProducerQueue i}"
      then show "queue_of s' w = queue_of s w \<and> ?L' w = L w"
        by (cases w) (auto simp: s' queue_of_def)
    next
      fix w a assume w: "w \<notin> {Registry, ProducerQueue i}" and a: "a \<in> set (L w)"
      have "a \<notin> set ?R" using consistent_disjoint [OF c, of w Registry] w a by auto
      then have "?R \<noteq> [] \<Longrightarrow> a \<noteq> last ?R" using last_in_set [of ?R] by auto
      then show "nodes s' a = nodes s a" by (simp add: s' h'(2))
    next
      fix w w' :: owner assume "w \<noteq> w'"
      then show "set (?L' w) \<inter> set (?L' w') = {}"
        using consistent_disjoint [OF c, of w w'] consistent_disjoint [OF c, of w Registry]
          consistent_disjoint [OF c, of w "ProducerQueue i"]
          consistent_disjoint [OF c, of Registry w'] consistent_disjoint [OF c, of "ProducerQueue i" w']
        by auto
    next
      show "iterator_valid s' (?L' Registry)"
        using unlocked by (simp add: iterator_valid_def s')
    qed
    then show ?thesis by blast
  qed
qed

lemma consistent_same_queues:
  assumes c: "consistent s L" and n: "nodes s' = nodes s"
    and q: "\<And>w. queue_of s' w = queue_of s w" and it: "iterator_valid s' (L Registry)"
  shows "consistent s' L"
  by (rule consistent_step [OF c, where W = "{}"])
     (use n q it consistent_disjoint [OF c] in auto)

lemma consistent_LockForIter:
  assumes c: "consistent s L" and e: "exec cfg LockForIter s = Inr s'"
  shows "\<exists>L'. consistent s' L'"
proof -
  from e obtain m where
    s': "s' = s\<lparr>storage := (storage s)\<lparr>mutex_' := m\<rparr>,
                 iterator := Iterable_begin ((storage s)\<lparr>mutex_' := m\<rparr>)\<rparr>"
    by (auto simp: and_then_eq_Inr Let_def)
  have r: "holds (nodes s) (storage s) (L Registry)"
    using consistent_holds [OF c, of Registry] by (simp add: holds_in_simps)
  have root: "root_' (storage s) = (if L Registry = [] then 0 else hd (L Registry))"
    using holds_root_null [OF r] holds_fields(1) [OF r] by auto
  have "iterator_valid s' (L Registry)"
    unfolding iterator_valid_def
    by (intro impI exI [of _ "[]"] exI [of _ "L Registry"]) (simp add: s' Iterable_begin_def root)
  moreover have "queue_of s' w = queue_of s w" for w
    by (cases w) (simp_all add: s' queue_of_def chain.truncate_def)
  ultimately have "consistent s' L"
    by (intro consistent_same_queues [OF c]) (simp_all add: s')
  then show ?thesis by blast
qed

lemma consistent_Next:
  assumes c: "consistent s L" and e: "exec cfg Next s = Inr s'"
  shows "\<exists>L'. consistent s' L'"
proof -
  from e have locked: "locked (mutex_' (storage s))" by (auto split: if_splits)
  with e obtain n where
    n: "get_next (nodes s) (node_' (iterator s)) = Inr n"
    and s': "s' = s\<lparr>iterator := \<lparr>previousNode_' = node_' (iterator s), node_' = n\<rparr>\<rparr>"
    by (auto simp: and_then_eq_Inr Iterator_next_def)
  have r: "holds (nodes s) (storage s) (L Registry)"
    using consistent_holds [OF c, of Registry] by (simp add: holds_in_simps)
  from c locked obtain ys zs where
    it: "L Registry = ys @ zs" "previousNode_' (iterator s) = (if ys = [] then 0 else last ys)"
      "node_' (iterator s) = (if zs = [] then 0 else hd zs)"
    by (auto simp: consistent_def iterator_valid_def)
  have "zs \<noteq> []" using n it(3) by (auto simp: get_next_def)
  then obtain x zs' where zs: "zs = x # zs'" by (cases zs) auto
  have "nodes s x = Some (if zs' = [] then 0 else hd zs')"
    using holds_split(3) [of "nodes s" "storage s" ys x zs'] r by (simp add: it(1) zs)
  then have "n = (if zs' = [] then 0 else hd zs')"
    using n it(3) by (simp add: zs get_next_def split: if_splits)
  then have "iterator_valid s' (L Registry)"
    unfolding iterator_valid_def
    by (intro impI exI [of _ "ys @ [x]"] exI [of _ zs']) (simp add: s' it zs)
  moreover have "queue_of s' w = queue_of s w" for w
    by (cases w) (simp_all add: s' queue_of_def)
  ultimately have "consistent s' L"
    by (intro consistent_same_queues [OF c]) (simp_all add: s')
  then show ?thesis by blast
qed

lemma consistent_Release:
  assumes c: "consistent s L" and e: "exec cfg Release s = Inr s'"
  shows "\<exists>L'. consistent s' L'"
proof -
  from e have s': "s' = s\<lparr>storage := (storage s)\<lparr>mutex_' := unlock (mutex_' (storage s))\<rparr>\<rparr>"
    by (auto split: if_splits)
  have "iterator_valid s' (L Registry)"
    by (simp add: iterator_valid_def s' unlock_def)
  moreover have "queue_of s' w = queue_of s w" for w
    by (cases w) (simp_all add: s' queue_of_def chain.truncate_def)
  ultimately have "consistent s' L"
    by (intro consistent_same_queues [OF c]) (simp_all add: s')
  then show ?thesis by blast
qed

lemma ExtractUnsafe_at_end:
  assumes st: "holds h st ys" and prev: "prev = (if ys = [] then 0 else last ys)"
  shows "\<exists>e. ExtractUnsafe prev (h, st) = Inl e"
proof (cases "ys = []")
  case True
  then have "root_' st = 0" using holds_root_null [OF st] by simp
  then show ?thesis by (simp add: ExtractUnsafe_def)
next
  case False
  have f: "root_' st \<noteq> 0" "last_' st = last ys" "last_' st \<noteq> 0" "h (last ys) = Some 0"
    using holds_fields [OF st False] by simp_all
  then show ?thesis
    using False prev
    by (simp add: ExtractUnsafe_def AssertCorrect_def get_next_def set_next_def)
qed

lemma consistent_Erase:
  assumes c: "consistent s L" and e: "exec cfg Erase s = Inr s'"
  shows "\<exists>L'. consistent s' L'"
proof -
  from e have locked: "locked (mutex_' (storage s))" by (auto split: if_splits)
  with e obtain h' owner' it' where
    er: "EraseAndAdvance (nodes s, storage s, iterator s) = Inr (h', owner', it')"
    and s': "s' = s\<lparr>nodes := h', storage := owner', iterator := it'\<rparr>"
    by (auto simp: and_then_eq_Inr)
  have r: "holds (nodes s) (storage s) (L Registry)"
    using consistent_holds [OF c, of Registry] by (simp add: holds_in_simps)
  from c locked obtain ys zs where
    it: "L Registry = ys @ zs" "previousNode_' (iterator s) = (if ys = [] then 0 else last ys)"
      "node_' (iterator s) = (if zs = [] then 0 else hd zs)"
    by (auto simp: consistent_def iterator_valid_def)
  have "zs \<noteq> []"
  proof
    assume "zs = []"
    then have "\<exists>e. ExtractUnsafe (previousNode_' (iterator s)) (nodes s, storage s) = Inl e"
      using r it by (intro ExtractUnsafe_at_end [of _ _ ys]) simp_all
    then show False using er by (auto simp: EraseAndAdvance_def)
  qed
  then obtain n zs' where zs: "zs = n # zs'" by (cases zs) auto
  have r': "holds (nodes s) (storage s) (ys @ n # zs')" using r by (simp add: it(1) zs)
  have pos: "positioned (iterator s) ys n" using it by (simp add: positioned_def zs)
  from EraseAndAdvance_holds [OF r' pos] er have
    h': "holds h' owner' (ys @ zs')"
      "\<forall>a. a \<noteq> n \<and> a \<noteq> previousNode_' (iterator s) \<longrightarrow> h' a = nodes s a"
    and it': "it' = (iterator s)\<lparr>node_' := (if zs' = [] then 0 else hd zs')\<rparr>"
    by auto
  let ?L' = "L(Registry := ys @ zs')"
  have "consistent s' ?L'"
  proof (rule consistent_step [OF c, where W = "{Registry}"])
    fix w assume "w \<in> {Registry}"
    then show "holds_in s' w (?L' w)" using h'(1) by (simp add: s' holds_in_simps)
  next
    fix w assume "w \<notin> {Registry}"
    then show "queue_of s' w = queue_of s w \<and> ?L' w = L w"
      by (cases w) (auto simp: s' queue_of_def)
  next
    fix w a assume w: "w \<notin> {Registry}" and a: "a \<in> set (L w)"
    have ar: "a \<notin> set (L Registry)" using consistent_disjoint [OF c, of w Registry] w a by auto
    then have "a \<noteq> n" by (auto simp: it(1) zs)
    moreover have "a \<noteq> previousNode_' (iterator s)"
    proof (cases "ys = []")
      case True
      then show ?thesis using consistent_nonnull [OF c, of w] a it(2) by auto
    next
      case False
      then have "previousNode_' (iterator s) \<in> set (L Registry)" by (simp add: it)
      then show ?thesis using ar by auto
    qed
    ultimately show "nodes s' a = nodes s a" using h'(2) by (simp add: s')
  next
    fix w w' :: owner assume ne: "w \<noteq> w'"
    have sub: "set (?L' v) \<subseteq> set (L v)" for v by (auto simp: it(1) zs)
    show "set (?L' w) \<inter> set (?L' w') = {}"
      using consistent_disjoint [OF c ne] sub [of w] sub [of w'] by blast
  next
    show "iterator_valid s' (?L' Registry)"
      unfolding iterator_valid_def
      by (intro impI exI [of _ ys] exI [of _ zs']) (simp add: s' it' it)
  qed
  then show ?thesis by blast
qed

lemma consistent_Move:
  assumes c: "consistent s L" and e: "exec cfg (Move j) s = Inr s'"
  shows "\<exists>L'. consistent s' L'"
proof -
  from e have locked: "locked (mutex_' (storage s))" by (auto split: if_splits)
  with e obtain h' owner' c' it' where
    mv: "MoveAndAdvance (nodes s, storage s, consumers s j, iterator s) = Inr (h', owner', c', it')"
    and s': "s' = s\<lparr>nodes := h', storage := owner', consumers := (consumers s)(j := c'),
                   iterator := it'\<rparr>"
    by (auto simp: and_then_eq_Inr)
  let ?C = "L (ConsumerQueue j)"
  have r: "holds (nodes s) (storage s) (L Registry)"
    using consistent_holds [OF c, of Registry] by (simp add: holds_in_simps)
  have cs: "holds (nodes s) (consumers s j) ?C"
    using consistent_holds [OF c, of "ConsumerQueue j"] by (simp add: holds_in_simps)
  from c locked obtain ys zs where
    it: "L Registry = ys @ zs" "previousNode_' (iterator s) = (if ys = [] then 0 else last ys)"
      "node_' (iterator s) = (if zs = [] then 0 else hd zs)"
    by (auto simp: consistent_def iterator_valid_def)
  have "zs \<noteq> []"
  proof
    assume "zs = []"
    then have "\<exists>e. ExtractUnsafe (previousNode_' (iterator s)) (nodes s, storage s) = Inl e"
      using r it by (intro ExtractUnsafe_at_end [of _ _ ys]) simp_all
    then show False using mv by (auto simp: MoveAndAdvance_def)
  qed
  then obtain n zs' where zs: "zs = n # zs'" by (cases zs) auto
  have r': "holds (nodes s) (storage s) (ys @ n # zs')" using r by (simp add: it(1) zs)
  have pos: "positioned (iterator s) ys n" using it by (simp add: positioned_def zs)
  have d: "set ?C \<inter> set (ys @ n # zs') = {}"
    using consistent_disjoint [OF c, of "ConsumerQueue j" Registry] by (simp add: it(1) zs)
  from MoveAndAdvance_holds [OF r' pos cs d] obtain h2 owner2 c2 where
    mv2: "MoveAndAdvance (nodes s, storage s, consumers s j, iterator s)
            = Inr (h2, owner2, c2, (iterator s)\<lparr>node_' := (if zs' = [] then 0 else hd zs')\<rparr>)"
    and h2: "holds h2 owner2 (ys @ zs')" "holds h2 c2 (?C @ [n])"
      "\<forall>a. a \<noteq> n \<and> a \<noteq> previousNode_' (iterator s) \<and> a \<noteq> last_' (consumers s j) \<longrightarrow> h2 a = nodes s a"
    by blast
  from mv mv2 have eq: "h' = h2" "owner' = owner2" "c' = c2"
    and it': "it' = (iterator s)\<lparr>node_' := (if zs' = [] then 0 else hd zs')\<rparr>"
    by simp_all
  note h' = h2 [folded eq]
  have nys: "n \<notin> set (ys @ zs')" using holds_split(5) [OF r'] by auto
  let ?L' = "L(Registry := ys @ zs', ConsumerQueue j := ?C @ [n])"
  have "consistent s' ?L'"
  proof (rule consistent_step [OF c, where W = "{Registry, ConsumerQueue j}"])
    fix w assume "w \<in> {Registry, ConsumerQueue j}"
    then show "holds_in s' w (?L' w)" using h'(1,2) by (auto simp: s' holds_in_simps)
  next
    fix w assume "w \<notin> {Registry, ConsumerQueue j}"
    then show "queue_of s' w = queue_of s w \<and> ?L' w = L w"
      by (cases w) (auto simp: s' queue_of_def)
  next
    fix w a assume w: "w \<notin> {Registry, ConsumerQueue j}" and a: "a \<in> set (L w)"
    have ar: "a \<notin> set (L Registry)" using consistent_disjoint [OF c, of w Registry] w a by auto
    have ac: "a \<notin> set ?C" using consistent_disjoint [OF c, of w "ConsumerQueue j"] w a by auto
    have a0: "a \<noteq> 0" using consistent_nonnull [OF c, of w] a by auto
    have "a \<noteq> n" using ar by (auto simp: it(1) zs)
    moreover have "a \<noteq> previousNode_' (iterator s)"
    proof (cases "ys = []")
      case True
      then show ?thesis using a0 it(2) by auto
    next
      case False
      then have "previousNode_' (iterator s) \<in> set (L Registry)" by (simp add: it)
      then show ?thesis using ar by auto
    qed
    moreover have "a \<noteq> last_' (consumers s j)"
    proof (cases "?C = []")
      case True
      then show ?thesis using a0 holds_last_null [OF cs] by auto
    next
      case False
      then have "last_' (consumers s j) \<in> set ?C" using holds_fields(3) [OF cs False] by simp
      then show ?thesis using ac by auto
    qed
    ultimately show "nodes s' a = nodes s a" using h'(3) by (simp add: s')
  next
    fix w w' :: owner assume ne: "w \<noteq> w'"
    have old: "x \<in> set (L v) \<or> (v = ConsumerQueue j \<and> x = n)" if "x \<in> set (?L' v)" for x v
      using that by (cases "v = Registry"; cases "v = ConsumerQueue j") (auto simp: it(1) zs)
    have moved: "v = ConsumerQueue j" if "n \<in> set (?L' v)" for v
    proof (rule ccontr)
      assume v: "v \<noteq> ConsumerQueue j"
      show False
      proof (cases "v = Registry")
        case True
        with that nys show False by simp
      next
        case False
        with that v have "n \<in> set (L v)" by simp
        moreover have "n \<in> set (L Registry)" by (simp add: it(1) zs)
        ultimately show False using consistent_disjoint [OF c, of v Registry] False by auto
      qed
    qed
    show "set (?L' w) \<inter> set (?L' w') = {}"
    proof (rule ccontr)
      assume "set (?L' w) \<inter> set (?L' w') \<noteq> {}"
      then obtain x where x: "x \<in> set (?L' w)" "x \<in> set (?L' w')" by blast
      from old [OF x(1)] old [OF x(2)] consider
        "x \<in> set (L w)" "x \<in> set (L w')" | "x = n" by blast
      then show False
      proof cases
        case 1
        then show False using consistent_disjoint [OF c ne] by blast
      next
        case 2
        with x have nw: "n \<in> set (?L' w)" and nw': "n \<in> set (?L' w')" by blast+
        have "w = ConsumerQueue j" using nw by (rule moved)
        moreover have "w' = ConsumerQueue j" using nw' by (rule moved)
        ultimately show False using ne by simp
      qed
    qed
  next
    show "iterator_valid s' (?L' Registry)"
      unfolding iterator_valid_def
      by (intro impI exI [of _ ys] exI [of _ zs']) (simp add: s' it' it)
  qed
  then show ?thesis by blast
qed

lemma consistent_exec:
  assumes "consistent s L" and "fresh_answer x s" and "exec cfg x s = Inr s'"
  shows "\<exists>L'. consistent s' L'"
proof (cases x)
  case (Insert i d)
  with assms show ?thesis by (auto intro: consistent_Insert)
next
  case (Publish i)
  with assms show ?thesis by (auto intro: consistent_Publish)
next
  case LockForIter
  with assms show ?thesis by (auto intro: consistent_LockForIter)
next
  case Next
  with assms show ?thesis by (auto intro: consistent_Next)
next
  case Erase
  with assms show ?thesis by (auto intro: consistent_Erase)
next
  case (Move j)
  with assms show ?thesis by (auto intro: consistent_Move)
next
  case Release
  with assms show ?thesis by (auto intro: consistent_Release)
qed

lemma consistent_run:
  assumes "consistent s L" and "fresh_answers cfg ops s" and "run cfg ops s = Inr s'"
  shows "\<exists>L'. consistent s' L'"
  using assms
proof (induction ops arbitrary: s L)
  case Nil
  then show ?case by auto
next
  case (Cons x ops)
  from Cons.prems(3) obtain s1 where
    s1: "exec cfg x s = Inr s1" and rest: "run cfg ops s1 = Inr s'"
    by (auto simp: and_then_eq_Inr)
  from Cons.prems(2) s1 have f: "fresh_answer x s" "fresh_answers cfg ops s1" by simp_all
  from consistent_exec [OF Cons.prems(1) f(1) s1] obtain L1 where "consistent s1 L1" ..
  from Cons.IH [OF this f(2) rest] show ?case .
qed

lemma consistent_registry_well_formed:
  "consistent s L \<Longrightarrow> well_formed (nodes s) (storage s)"
  using holds_well_formed [of "nodes s" "storage s" "L Registry"] consistent_holds [of s L Registry]
  by (simp add: holds_in_simps)


section \<open>The registry stays well formed\<close>

text \<open>
  C1. After every sequence of \<open>Producer::Insert\<close>, \<open>Producer::Publish\<close>, \<open>EraseAndAdvance\<close>
  and \<open>MoveAndAdvance\<close> (and of the locking and stepping of the iterator that they need)
  that a new registry, its producers and its consumers have run through, with an
  allocator that never returns the block of a live node, the registry is well formed:
  \<open>root_\<close> is null iff \<open>last_\<close> is null iff \<open>size_\<close> is 0, the \<open>next_\<close> of the last node is
  null when the chain is not empty, and forward iteration from \<open>root_\<close> ends after
  exactly \<open>size_\<close> nodes, each visited once.
\<close>

theorem registry_well_formed:
  assumes "fresh_answers cfg ops (initial allocators)"
    and "run cfg ops (initial allocators) = Inr s"
  shows "well_formed (nodes s) (storage s)"
proof -
  from consistent_run [OF consistent_initial assms] obtain L where "consistent s L" ..
  then show ?thesis by (rule consistent_registry_well_formed)
qed

lemmas eval_defs =
  Producer_Insert_def Node_Create_def GetSizeAndAlignmentForDataSize_def DataOffset_def
  AlignUp_def Alloc_def IsAligned_def link_node_def AssertCorrect_def get_next_def set_next_def
  Producer_Publish_def lock_def unlock_def ExtractUnsafe_def EraseAndAdvance_def
  MoveAndAdvance_def Consumer_Insert_def Iterator_next_def Iterable_begin_def Let_def
  lp64_layout_def Deleter_single

lemma example_run_result:
  "\<exists>s. run lp64_layout example_run (initial three_answers) = Inr s \<and>
        size_' (storage s) = 1 \<and> size_' (consumers s 0) = 1"
  by (simp add: example_run_def initial_def three_answers_def empty_chain_def eval_defs)

text \<open>The example run ends with one node in the registry and one in the consumer.\<close>

theorem registry_well_formed_witness:
  "fresh_answers lp64_layout example_run (initial three_answers) \<and>
   (\<exists>s. run lp64_layout example_run (initial three_answers) = Inr s \<and>
        well_formed (nodes s) (storage s) \<and>
        size_' (storage s) = 1 \<and> size_' (consumers s 0) = 1)"
proof -
  have f: "fresh_answers lp64_layout example_run (initial three_answers)"
    by (simp add: example_run_def initial_def three_answers_def empty_chain_def eval_defs)
  from example_run_result obtain s where
    s: "run lp64_layout example_run (initial three_answers) = Inr s"
      "size_' (storage s) = 1" "size_' (consumers s 0) = 1"
    by blast
  from registry_well_formed [OF f s(1)] f s show ?thesis by blast
qed


section \<open>Recovering the node from the data\<close>

lemma IsAligned_dvd: "alignment \<noteq> 0 \<Longrightarrow> IsAligned ptr alignment \<longleftrightarrow> unat alignment dvd unat ptr"
proof -
  assume "alignment \<noteq> 0"
  have "ptr mod alignment = 0 \<longleftrightarrow> unat (ptr mod alignment) = 0"
    by (simp add: unat_eq_0)
  also have "\<dots> \<longleftrightarrow> unat ptr mod unat alignment = 0" by (simp add: unat_mod)
  also have "\<dots> \<longleftrightarrow> unat alignment dvd unat ptr" by (simp add: dvd_eq_mod_eq_0)
  finally show ?thesis by (simp add: IsAligned_def)
qed

lemma power_two_dvd_mod:
  fixes x :: nat
  assumes "k < 64"
  shows "2 ^ k dvd x mod 2 ^ 64 \<longleftrightarrow> 2 ^ k dvd x"
proof -
  have "(2::nat) ^ k dvd 2 ^ 64" using assms by (intro le_imp_power_dvd) simp
  then show ?thesis by (rule dvd_mod_iff)
qed

lemma IsAligned_add:
  assumes a: "IsValidAlignment alignment" and p: "IsAligned p alignment" and q: "IsAligned q alignment"
  shows "IsAligned (p + q) alignment"
proof -
  from a obtain k where k: "k < 64" "unat alignment = 2 ^ k" using valid_alignment_unat by blast
  have nz: "alignment \<noteq> 0" using a by (rule valid_alignment_nonzero)
  have "2 ^ k dvd unat p + unat q"
    using p q by (simp add: IsAligned_dvd [OF nz] k(2))
  then have "2 ^ k dvd (unat p + unat q) mod 2 ^ 64"
    by (simp only: power_two_dvd_mod [OF k(1)])
  then show ?thesis
    by (simp add: IsAligned_dvd [OF nz] k(2) unat_word_ariths)
qed

lemma IsAligned_AlignUp:
  assumes a: "IsValidAlignment alignment"
  shows "IsAligned (AlignUp sz alignment) alignment"
proof -
  from a obtain k where k: "k < 64" "unat alignment = 2 ^ k" using valid_alignment_unat by blast
  have nz: "alignment \<noteq> 0" using a by (rule valid_alignment_nonzero)
  have "2 ^ k dvd unat ((sz + alignment - 1) div alignment) * 2 ^ k" by simp
  then have "2 ^ k dvd (unat ((sz + alignment - 1) div alignment) * 2 ^ k) mod 2 ^ 64"
    by (simp only: power_two_dvd_mod [OF k(1)])
  then show ?thesis
    by (simp add: IsAligned_dvd [OF nz] k(2) AlignUp_def unat_word_ariths)
qed

lemma IsAligned_coarser:
  assumes a: "IsValidAlignment a" and b: "IsValidAlignment b" and p: "IsAligned p (max b a)"
  shows "IsAligned p a"
proof -
  have m: "max b a \<noteq> 0" using valid_alignment_max [OF b a] by (rule valid_alignment_nonzero)
  have "unat a dvd unat (max a b)" using a b by (rule valid_alignment_dvd_max)
  moreover have "unat (max b a) dvd unat p" using p by (simp add: IsAligned_dvd [OF m])
  ultimately have "unat a dvd unat p" by (auto simp: max.commute elim: dvd_trans)
  then show ?thesis using valid_alignment_nonzero [OF a] by (simp add: IsAligned_dvd)
qed

lemma Data_of_aligned_node:
  assumes v: "valid_layout cfg"
    and n: "IsAligned node (max (alignof_Node cfg) (DataAlignment cfg))"
  shows "Data cfg node = Inr (node + DataOffset cfg)"
proof -
  have da: "IsValidAlignment (DataAlignment cfg)" and na: "IsValidAlignment (alignof_Node cfg)"
    using v by (simp_all add: valid_layout_def)
  have "IsAligned node (DataAlignment cfg)" using da na n by (rule IsAligned_coarser)
  moreover have "IsAligned (DataOffset cfg) (DataAlignment cfg)"
    unfolding DataOffset_def using da by (rule IsAligned_AlignUp)
  ultimately have "IsAligned (node + DataOffset cfg) (DataAlignment cfg)"
    using da by (intro IsAligned_add)
  then show ?thesis by (simp add: Data_def)
qed

lemma FromData_Data:
  assumes "Data cfg node = Inr data"
  shows "FromData cfg data = Inr node"
proof -
  from assms have d: "data = node + DataOffset cfg"
    by (auto simp: Data_def Let_def and_then_eq_Inr)
  then have "data - DataOffset cfg = node" by simp
  then show ?thesis using assms by (simp add: FromData_def)
qed

lemma Node_Create_aligned:
  assumes "Node_Create cfg a d h = Inr (node, a', h1)"
  shows "IsAligned node (max (alignof_Node cfg) (DataAlignment cfg))"
  using assms
  by (auto simp: Node_Create_def GetSizeAndAlignmentForDataSize_def Let_def and_then_def
      RuntimeAssert_def split: prod.splits if_splits sum.splits)

lemma link_node_last:
  assumes "link_node node h q = Inr (h', q')"
  shows "last_' q' = node"
  using assms by (auto simp: link_node_def and_then_def split: if_splits sum.splits)

lemma Producer_Insert_node:
  assumes "Producer_Insert cfg d (h, p) = Inr (node, h', p')"
  shows "last_' p' = node \<and> IsAligned node (max (alignof_Node cfg) (DataAlignment cfg))"
proof -
  from assms obtain r where cr: "Node_Create cfg (allocator_' p) d h = Inr r"
    by (auto simp: Producer_Insert_def and_then_eq_Inr)
  obtain n a' h1 where r: "r = (n, a', h1)" by (cases r)
  from assms cr obtain l where
    link: "link_node n h1 (p\<lparr>allocator_' := a'\<rparr>) = Inr l"
    by (auto simp: Producer_Insert_def and_then_eq_Inr r)
  obtain h2 p2 where l: "l = (h2, p2)" by (cases l)
  from assms cr link have "node = n" "p' = p2"
    by (auto simp: Producer_Insert_def and_then_eq_Inr r l)
  then show ?thesis
    using Node_Create_aligned [OF cr [unfolded r]] link_node_last [OF link [unfolded l]] by simp
qed

lemma valid_lp64_factory: "valid_layout lp64_factory"
proof -
  have "(8::64 word) = 2 ^ 3" by simp
  then have "IsValidAlignment 8"
    unfolding IsValidAlignment_def by (intro image_eqI [where x = 3]) simp_all
  then show ?thesis by (simp add: valid_layout_def lp64_factory_def)
qed

lemma CreateObject_Inr:
  assumes "CreateObject cfg typeInfo (h, om, tq) = Inr (object, h', om', tq')"
  shows "\<exists>node p'. Producer_Insert cfg (ObjectAllocatedDataSize cfg typeInfo) (h, producer_' tq) = Inr (node, h', p') \<and>
           tq' = tq\<lparr>producer_' := p'\<rparr> \<and>
           Data cfg node = Inr (object - offsetof_HeapObjHeader_object cfg) \<and>
           gcData_at om' (object - offsetof_HeapObjHeader_object cfg) = Some \<lparr>color_' = kWhite\<rparr> \<and>
           header_at om' object = Some (Obj \<lparr>typeInfoOrMeta_' = typeInfo\<rparr>)"
  using assms
  by (auto simp: CreateObject_def and_then_eq_Inr Let_def)

lemma CreateArray_Inr:
  assumes "CreateArray cfg typeInfo count (h, om, tq) = Inr (array, h', om', tq')"
  shows "\<exists>allocSize node p'.
           ArrayAllocatedDataSize cfg typeInfo count = Inr allocSize \<and>
           Producer_Insert cfg allocSize (h, producer_' tq) = Inr (node, h', p') \<and>
           tq' = tq\<lparr>producer_' := p'\<rparr> \<and>
           Data cfg node = Inr (array - offsetof_HeapArrayHeader_array cfg) \<and>
           gcData_at om' (array - offsetof_HeapArrayHeader_array cfg) = Some \<lparr>color_' = kWhite\<rparr> \<and>
           header_at om' array = Some (Arr \<lparr>typeInfoOrMeta_' = typeInfo, count_' = count\<rparr>) \<and>
           IsArray (type_infos cfg typeInfo)"
  using assms
  by (auto simp: CreateArray_def and_then_eq_Inr Let_def)

lemma NodeRef_From_ObjHeader_of_data:
  assumes "Data cfg node = Inr (object - offsetof_HeapObjHeader_object cfg)"
    and "header_at m object = Some hdr" and "is_heap cfg (header_typeInfoOrMeta hdr)"
  shows "NodeRef_From_ObjHeader cfg m object = Inr node"
  using assms FromData_Data [OF assms(1)] by (simp add: NodeRef_From_ObjHeader_def)

lemma NodeRef_From_ArrayHeader_of_data:
  assumes "Data cfg node = Inr (array - offsetof_HeapArrayHeader_array cfg)"
    and "header_at m array = Some hdr" and "is_heap cfg (header_typeInfoOrMeta hdr)"
  shows "NodeRef_From_ArrayHeader cfg m array = Inr node"
  using assms FromData_Data [OF assms(1)] by (simp add: NodeRef_From_ArrayHeader_def)

text \<open>
  C4. For a valid layout: for every node that \<open>Node::Create\<close> returns, \<open>Data()\<close> returns
  a data address, and \<open>Node::FromData\<close> of this address is the node. For every handle
  that \<open>CreateObject\<close> returns, the object record has been constructed in the data
  region of the node just inserted (the last node of the producer): its GC data is
  there, white, and the handle is the address of its object header, which holds the
  type descriptor; and in every later state of the memory in which the header at the
  handle is that of a heap object, \<open>NodeRef::From\<close> of the handle is this node. The same
  holds of \<open>CreateArray\<close>. The data address is a function of the address of the node
  alone, and no operation moves a node.
\<close>

theorem node_recovery_round_trip:
  assumes "valid_layout cfg"
  shows "(Node_Create cfg allocator dataSize h = Inr (node, allocator', h1) \<longrightarrow>
            (\<exists>data. Data cfg node = Inr data \<and> FromData cfg data = Inr node)) \<and>
         (CreateObject cfg typeInfo (h, om, tq) = Inr (object, h', om', tq') \<longrightarrow>
            Data cfg (last_' (producer_' tq')) = Inr (object - offsetof_HeapObjHeader_object cfg) \<and>
            gcData_at om' (object - offsetof_HeapObjHeader_object cfg) = Some \<lparr>color_' = kWhite\<rparr> \<and>
            header_at om' object = Some (Obj \<lparr>typeInfoOrMeta_' = typeInfo\<rparr>) \<and>
            (\<forall>m hdr. header_at m object = Some hdr \<and> is_heap cfg (header_typeInfoOrMeta hdr) \<longrightarrow>
               NodeRef_From_ObjHeader cfg m object = Inr (last_' (producer_' tq')))) \<and>
         (CreateArray cfg typeInfo count (h, om, tq) = Inr (array, h', om', tq') \<longrightarrow>
            Data cfg (last_' (producer_' tq')) = Inr (array - offsetof_HeapArrayHeader_array cfg) \<and>
            gcData_at om' (array - offsetof_HeapArrayHeader_array cfg) = Some \<lparr>color_' = kWhite\<rparr> \<and>
            header_at om' array = Some (Arr \<lparr>typeInfoOrMeta_' = typeInfo, count_' = count\<rparr>) \<and>
            (\<forall>m hdr. header_at m array = Some hdr \<and> is_heap cfg (header_typeInfoOrMeta hdr) \<longrightarrow>
               NodeRef_From_ArrayHeader cfg m array = Inr (last_' (producer_' tq'))))"
proof (intro conjI impI)
  assume "Node_Create cfg allocator dataSize h = Inr (node, allocator', h1)"
  then have "IsAligned node (max (alignof_Node cfg) (DataAlignment cfg))"
    by (rule Node_Create_aligned)
  with assms have d: "Data cfg node = Inr (node + DataOffset cfg)"
    by (rule Data_of_aligned_node)
  then have "FromData cfg (node + DataOffset cfg) = Inr node" by (rule FromData_Data)
  with d show "\<exists>data. Data cfg node = Inr data \<and> FromData cfg data = Inr node" by blast
next
  assume c: "CreateObject cfg typeInfo (h, om, tq) = Inr (object, h', om', tq')"
  from CreateObject_Inr [OF c] obtain n p' where
    ins: "Producer_Insert cfg (ObjectAllocatedDataSize cfg typeInfo) (h, producer_' tq) = Inr (n, h', p')"
    and tq': "tq' = tq\<lparr>producer_' := p'\<rparr>"
    and d: "Data cfg n = Inr (object - offsetof_HeapObjHeader_object cfg)"
    and g: "gcData_at om' (object - offsetof_HeapObjHeader_object cfg) = Some \<lparr>color_' = kWhite\<rparr>"
    and hd: "header_at om' object = Some (Obj \<lparr>typeInfoOrMeta_' = typeInfo\<rparr>)"
    by blast
  have n: "last_' (producer_' tq') = n" using Producer_Insert_node [OF ins] by (simp add: tq')
  show "Data cfg (last_' (producer_' tq')) = Inr (object - offsetof_HeapObjHeader_object cfg)"
    using d n by simp
  show "gcData_at om' (object - offsetof_HeapObjHeader_object cfg) = Some \<lparr>color_' = kWhite\<rparr>"
    by (rule g)
  show "header_at om' object = Some (Obj \<lparr>typeInfoOrMeta_' = typeInfo\<rparr>)" by (rule hd)
  show "\<forall>m hdr. header_at m object = Some hdr \<and> is_heap cfg (header_typeInfoOrMeta hdr) \<longrightarrow>
               NodeRef_From_ObjHeader cfg m object = Inr (last_' (producer_' tq'))"
    using NodeRef_From_ObjHeader_of_data [OF d] n by blast
next
  assume c: "CreateArray cfg typeInfo count (h, om, tq) = Inr (array, h', om', tq')"
  from CreateArray_Inr [OF c] obtain allocSize n p' where
    ins: "Producer_Insert cfg allocSize (h, producer_' tq) = Inr (n, h', p')"
    and tq': "tq' = tq\<lparr>producer_' := p'\<rparr>"
    and d: "Data cfg n = Inr (array - offsetof_HeapArrayHeader_array cfg)"
    and g: "gcData_at om' (array - offsetof_HeapArrayHeader_array cfg) = Some \<lparr>color_' = kWhite\<rparr>"
    and hd: "header_at om' array = Some (Arr \<lparr>typeInfoOrMeta_' = typeInfo, count_' = count\<rparr>)"
    by blast
  have n: "last_' (producer_' tq') = n" using Producer_Insert_node [OF ins] by (simp add: tq')
  show "Data cfg (last_' (producer_' tq')) = Inr (array - offsetof_HeapArrayHeader_array cfg)"
    using d n by simp
  show "gcData_at om' (array - offsetof_HeapArrayHeader_array cfg) = Some \<lparr>color_' = kWhite\<rparr>"
    by (rule g)
  show "header_at om' array = Some (Arr \<lparr>typeInfoOrMeta_' = typeInfo, count_' = count\<rparr>)" by (rule hd)
  show "\<forall>m hdr. header_at m array = Some hdr \<and> is_heap cfg (header_typeInfoOrMeta hdr) \<longrightarrow>
               NodeRef_From_ArrayHeader cfg m array = Inr (last_' (producer_' tq'))"
    using NodeRef_From_ArrayHeader_of_data [OF d] n by blast
qed

lemmas factory_eval_defs =
  CreateObject_def CreateArray_def ObjectAllocatedDataSize_def ArrayAllocatedDataSize_def
  kObjectAlignment_def Data_def new_thread_queue_def new_producer_def empty_memory_def
  Producer_Insert_def Node_Create_def GetSizeAndAlignmentForDataSize_def DataOffset_def
  AlignUp_def Alloc_def IsAligned_def link_node_def AssertCorrect_def get_next_def set_next_def
  Let_def

lemma CreateObject_example:
  "CreateObject lp64_factory 4096 (Map.empty, empty_memory, new_thread_queue [64]) =
     Inr (80, [64 \<mapsto> 0],
          \<lparr>gcData_at = [72 \<mapsto> \<lparr>color_' = kWhite\<rparr>],
           header_at = [80 \<mapsto> Obj \<lparr>typeInfoOrMeta_' = 4096\<rparr>]\<rparr>,
          \<lparr>producer_' = \<lparr>root_' = 64, last_' = 64, size_' = 1,
             allocator_' = \<lparr>responses = [], requests = [(40, 8)]\<rparr>\<rparr>\<rparr>)"
  by (simp add: lp64_factory_def factory_eval_defs)

lemma CreateArray_example:
  "CreateArray lp64_factory 8192 10 (Map.empty, empty_memory, new_thread_queue [64]) =
     Inr (80, [64 \<mapsto> 0],
          \<lparr>gcData_at = [72 \<mapsto> \<lparr>color_' = kWhite\<rparr>],
           header_at = [80 \<mapsto> Arr \<lparr>typeInfoOrMeta_' = 8192, count_' = 10\<rparr>]\<rparr>,
          \<lparr>producer_' = \<lparr>root_' = 64, last_' = 64, size_' = 1,
             allocator_' = \<lparr>responses = [], requests = [(72, 8)]\<rparr>\<rparr>\<rparr>)"
  by (simp add: lp64_factory_def factory_eval_defs)

text \<open>
  A node at 64 has its data at 72; an object and an array created in it have their
  handles at 80, from which the node is recovered.
\<close>

theorem node_recovery_round_trip_witness:
  "valid_layout lp64_factory \<and>
   (\<exists>allocator' h1. Node_Create lp64_factory \<lparr>responses = [64], requests = []\<rparr> 32 Map.empty
        = Inr (64, allocator', h1)) \<and>
   Data lp64_factory 64 = Inr 72 \<and> FromData lp64_factory 72 = Inr 64 \<and>
   (\<exists>h' om' tq'.
      CreateObject lp64_factory 4096 (Map.empty, empty_memory, new_thread_queue [64])
        = Inr (80, h', om', tq') \<and>
      last_' (producer_' tq') = 64 \<and> NodeRef_From_ObjHeader lp64_factory om' 80 = Inr 64) \<and>
   (\<exists>h' om' tq'.
      CreateArray lp64_factory 8192 10 (Map.empty, empty_memory, new_thread_queue [64])
        = Inr (80, h', om', tq') \<and>
      last_' (producer_' tq') = 64 \<and> NodeRef_From_ArrayHeader lp64_factory om' 80 = Inr 64)"
proof -
  have nc: "Node_Create lp64_factory \<lparr>responses = [64], requests = []\<rparr> 32 Map.empty
        = Inr (64, \<lparr>responses = [], requests = [(40, 8)]\<rparr>, [64 \<mapsto> 0])"
    by (simp add: lp64_factory_def factory_eval_defs)
  have heap_tag: "is_heap lp64_factory 4096" "is_heap lp64_factory 8192"
    by (simp_all add: lp64_factory_def)
  note rt = node_recovery_round_trip [OF valid_lp64_factory]
  from rt [where allocator = "\<lparr>responses = [64], requests = []\<rparr>" and dataSize = 32
      and h = Map.empty and node = 64] nc
  have 1: "\<exists>data. Data lp64_factory 64 = Inr data \<and> FromData lp64_factory data = Inr 64"
    by blast
  have d: "Data lp64_factory 64 = Inr 72"
    by (simp add: lp64_factory_def Data_def DataOffset_def AlignUp_def IsAligned_def)
  with 1 have f: "FromData lp64_factory 72 = Inr 64" by simp
  from rt [where h = Map.empty and typeInfo = 4096 and om = empty_memory
      and tq = "new_thread_queue [64]" and object = 80] CreateObject_example
  have 2: "NodeRef_From_ObjHeader lp64_factory
       \<lparr>gcData_at = [72 \<mapsto> \<lparr>color_' = kWhite\<rparr>],
           header_at = [80 \<mapsto> Obj \<lparr>typeInfoOrMeta_' = 4096\<rparr>]\<rparr> 80 = Inr 64"
    using heap_tag by simp
  from rt [where h = Map.empty and typeInfo = 8192 and om = empty_memory
      and tq = "new_thread_queue [64]" and count = 10 and array = 80] CreateArray_example
  have 3: "NodeRef_From_ArrayHeader lp64_factory
       \<lparr>gcData_at = [72 \<mapsto> \<lparr>color_' = kWhite\<rparr>],
           header_at = [80 \<mapsto> Arr \<lparr>typeInfoOrMeta_' = 8192, count_' = 10\<rparr>]\<rparr> 80 = Inr 64"
    using heap_tag by simp
  show ?thesis
    using valid_lp64_factory nc d f 2 3 CreateObject_example CreateArray_example by simp
qed


section \<open>The size of an array\<close>

lemma unat_ucast_32_64: "unat (ucast (m :: 32 word) :: 64 word) = unat m"
proof -
  have "unat m < 2 ^ 32" using unsigned_less [of m, where ?'a = nat] by simp
  also have "(2::nat) ^ 32 \<le> 2 ^ 64" by simp
  finally have "take_bit 64 (unat m) = unat m" by (simp only: take_bit_nat_eq_self)
  then show ?thesis by (simp add: unsigned_ucast_eq)
qed

lemma unat_neg_of_negative:
  fixes x :: "32 word"
  assumes "sint x < 0"
  shows "unat (- x) = nat (- sint x)"
proof -
  have "- (2 ^ 31) \<le> sint x" using sint_ge [of x] by simp
  with assms have range: "0 \<le> - sint x" "- sint x < 2 ^ 32" by simp_all
  have "- x = word_of_int (- sint x)" by simp
  then have "uint (- x) = (- sint x) mod 2 ^ 32"
    by (simp only: uint_word_of_int) simp
  also have "\<dots> = - sint x" using range by simp
  finally show ?thesis by (simp add: unat_eq_nat_uint)
qed

lemma members_size_unat:
  fixes instanceSize count :: "32 word"
  assumes "sint instanceSize < 0"
  shows "unat ((- instanceSize) * count) = (nat (- sint instanceSize) * unat count) mod 2 ^ 32"
proof -
  have "unat ((- instanceSize) * count) = unat (- instanceSize) * unat count mod 2 ^ LENGTH(32)"
    by (rule unat_word_ariths)
  also have "\<dots> = (nat (- sint instanceSize) * unat count) mod 2 ^ 32"
    by (simp only: unat_neg_of_negative [OF assms]) simp
  finally show ?thesis .
qed

lemma ArrayAllocatedDataSize_spec:
  assumes v: "IsValidAlignment (kObjectAlignment cfg)"
    and least: "- (2 ^ 31) < sint (instanceSize_' (type_infos cfg typeInfo))"
    and neg: "sint (instanceSize_' (type_infos cfg typeInfo)) < 0"
    and bound: "unat (sizeof_HeapArrayHeader cfg) + 2 ^ 32 + unat (kObjectAlignment cfg) \<le> 2 ^ 64"
  shows "\<exists>allocSize. ArrayAllocatedDataSize cfg typeInfo count = Inr allocSize \<and>
     unat allocSize =
       spec_array_data_size (unat (sizeof_HeapArrayHeader cfg))
         (sint (instanceSize_' (type_infos cfg typeInfo))) (unat count) (unat (kObjectAlignment cfg))"
proof -
  define m where "m = (- instanceSize_' (type_infos cfg typeInfo)) * count"
  have size: "ArrayAllocatedDataSize cfg typeInfo count
      = Inr (AlignUp (sizeof_HeapArrayHeader cfg + ucast m) (kObjectAlignment cfg))"
    unfolding ArrayAllocatedDataSize_def Let_def m_def using least by simp
  have m: "unat m < 2 ^ 32" using unsigned_less [of m, where ?'a = nat] by simp
  have mspec: "unat m = (nat (- sint (instanceSize_' (type_infos cfg typeInfo))) * unat count) mod 2 ^ 32"
    unfolding m_def using neg by (rule members_size_unat)
  have "unat (sizeof_HeapArrayHeader cfg) + unat (ucast m :: 64 word) < 2 ^ LENGTH(64)"
    using m bound by (simp add: unat_ucast_32_64)
  then have "unat (sizeof_HeapArrayHeader cfg + ucast m)
      = unat (sizeof_HeapArrayHeader cfg) + unat (ucast m :: 64 word)"
    by (simp only: unat_add_lem)
  then have sum: "unat (sizeof_HeapArrayHeader cfg + ucast m) = unat (sizeof_HeapArrayHeader cfg) + unat m"
    by (simp only: unat_ucast_32_64)
  have "unat (sizeof_HeapArrayHeader cfg + ucast m) + unat (kObjectAlignment cfg) \<le> 2 ^ 64"
    unfolding sum using m bound by simp
  then have "unat (AlignUp (sizeof_HeapArrayHeader cfg + ucast m) (kObjectAlignment cfg))
      = round_up (unat (sizeof_HeapArrayHeader cfg + ucast m)) (unat (kObjectAlignment cfg))"
    by (intro unat_AlignUp valid_alignment_nonzero [OF v])
  then have "unat (AlignUp (sizeof_HeapArrayHeader cfg + ucast m) (kObjectAlignment cfg)) =
       spec_array_data_size (unat (sizeof_HeapArrayHeader cfg))
         (sint (instanceSize_' (type_infos cfg typeInfo))) (unat count) (unat (kObjectAlignment cfg))"
    unfolding spec_array_data_size_def sum mspec .
  with size show ?thesis by blast
qed

text \<open>
  C5, as amended. For an array type descriptor whose \<open>instanceSize_\<close> is negative and not
  the least \<open>int32_t\<close>, and every 32-bit count, on a target whose heap array header and
  object alignment leave room for \<open>2 ^ 32\<close> bytes of members in a \<open>size_t\<close>: the data size
  that \<open>CreateArray\<close> computes is, as a number, the size of the heap array header (the GC
  data followed by the array header, \<open>sizeof(HeapArrayHeader)\<close>) plus the product of the
  element size \<open>- instanceSize_\<close> and the count modulo \<open>2 ^ 32\<close>, rounded up to the object
  alignment. When \<open>CreateArray\<close> returns, it has inserted a node of this data size into
  the producer, the handle it returns is the address of the array header embedded in
  the data region of this node, and this header holds the type descriptor and the count.
\<close>

theorem CreateArray_size_and_count:
  assumes "IsValidAlignment (kObjectAlignment cfg)"
    and "- (2 ^ 31) < sint (instanceSize_' (type_infos cfg typeInfo))"
    and "sint (instanceSize_' (type_infos cfg typeInfo)) < 0"
    and "unat (sizeof_HeapArrayHeader cfg) + 2 ^ 32 + unat (kObjectAlignment cfg) \<le> 2 ^ 64"
  shows "\<exists>allocSize. ArrayAllocatedDataSize cfg typeInfo count = Inr allocSize \<and>
           unat allocSize =
             spec_array_data_size (unat (sizeof_HeapArrayHeader cfg))
               (sint (instanceSize_' (type_infos cfg typeInfo))) (unat count)
               (unat (kObjectAlignment cfg)) \<and>
           (CreateArray cfg typeInfo count (h, om, tq) = Inr (array, h', om', tq') \<longrightarrow>
              (\<exists>node p'.
                 Producer_Insert cfg allocSize (h, producer_' tq) = Inr (node, h', p') \<and>
                 tq' = tq\<lparr>producer_' := p'\<rparr> \<and>
                 Data cfg node = Inr (array - offsetof_HeapArrayHeader_array cfg) \<and>
                 header_at om' array = Some (Arr \<lparr>typeInfoOrMeta_' = typeInfo, count_' = count\<rparr>)))"
proof -
  from ArrayAllocatedDataSize_spec [OF assms] obtain allocSize where
    a: "ArrayAllocatedDataSize cfg typeInfo count = Inr allocSize"
    and u: "unat allocSize =
             spec_array_data_size (unat (sizeof_HeapArrayHeader cfg))
               (sint (instanceSize_' (type_infos cfg typeInfo))) (unat count)
               (unat (kObjectAlignment cfg))"
    by blast
  have "\<exists>node p'.
          Producer_Insert cfg allocSize (h, producer_' tq) = Inr (node, h', p') \<and>
          tq' = tq\<lparr>producer_' := p'\<rparr> \<and>
          Data cfg node = Inr (array - offsetof_HeapArrayHeader_array cfg) \<and>
          header_at om' array = Some (Arr \<lparr>typeInfoOrMeta_' = typeInfo, count_' = count\<rparr>)"
    if "CreateArray cfg typeInfo count (h, om, tq) = Inr (array, h', om', tq')"
    using CreateArray_Inr [OF that] a by auto
  with a u show ?thesis by blast
qed

text \<open>
  Arrays of 4-byte elements: a count of \<open>2 ^ 30 + 1\<close> wraps around to 4 bytes of members,
  hence 32 bytes of data; an array of 10 elements has 64 bytes of data and is created in
  the node at 64.
\<close>

theorem CreateArray_size_and_count_witness:
  "IsValidAlignment (kObjectAlignment lp64_factory) \<and>
   - (2 ^ 31) < sint (instanceSize_' (type_infos lp64_factory 8192)) \<and>
   sint (instanceSize_' (type_infos lp64_factory 8192)) < 0 \<and>
   unat (sizeof_HeapArrayHeader lp64_factory) + 2 ^ 32 + unat (kObjectAlignment lp64_factory) \<le> 2 ^ 64 \<and>
   ArrayAllocatedDataSize lp64_factory 8192 1073741825 = Inr 32 \<and>
   spec_array_data_size (unat (sizeof_HeapArrayHeader lp64_factory))
     (sint (instanceSize_' (type_infos lp64_factory 8192))) (unat (1073741825 :: 32 word))
     (unat (kObjectAlignment lp64_factory)) = 32 \<and>
   ArrayAllocatedDataSize lp64_factory 8192 10 = Inr 64 \<and>
   (\<exists>node h' om' p'.
      CreateArray lp64_factory 8192 10 (Map.empty, empty_memory, new_thread_queue [64])
        = Inr (80, h', om', \<lparr>producer_' = p'\<rparr>) \<and>
      Producer_Insert lp64_factory 64 (Map.empty, new_producer [64]) = Inr (node, h', p') \<and>
      Data lp64_factory node = Inr 72 \<and>
      header_at om' 80 = Some (Arr \<lparr>typeInfoOrMeta_' = 8192, count_' = 10\<rparr>))"
proof -
  have v: "IsValidAlignment (kObjectAlignment lp64_factory)"
    using valid_lp64_factory by (simp add: valid_layout_def kObjectAlignment_def)
  have l: "- (2 ^ 31) < sint (instanceSize_' (type_infos lp64_factory 8192))"
    by (simp add: lp64_factory_def)
  have n: "sint (instanceSize_' (type_infos lp64_factory 8192)) < 0"
    by (simp add: lp64_factory_def)
  have b: "unat (sizeof_HeapArrayHeader lp64_factory) + 2 ^ 32 + unat (kObjectAlignment lp64_factory) \<le> 2 ^ 64"
    by (simp add: lp64_factory_def kObjectAlignment_def)
  note t = CreateArray_size_and_count [OF v l n b]
  have a: "ArrayAllocatedDataSize lp64_factory 8192 1073741825 = Inr 32"
    by (simp add: ArrayAllocatedDataSize_def lp64_factory_def kObjectAlignment_def AlignUp_def)
  have a10: "ArrayAllocatedDataSize lp64_factory 8192 10 = Inr 64"
    by (simp add: ArrayAllocatedDataSize_def lp64_factory_def kObjectAlignment_def AlignUp_def)
  from t [of 1073741825] have 1: "spec_array_data_size (unat (sizeof_HeapArrayHeader lp64_factory))
     (sint (instanceSize_' (type_infos lp64_factory 8192))) (unat (1073741825 :: 32 word))
     (unat (kObjectAlignment lp64_factory)) = 32"
    unfolding a by auto
  from t [where count = 10 and h = Map.empty and om = empty_memory and tq = "new_thread_queue [64]"
      and array = 80 and h' = "[64 \<mapsto> 0]"
      and om' = "\<lparr>gcData_at = [72 \<mapsto> \<lparr>color_' = kWhite\<rparr>],
           header_at = [80 \<mapsto> Arr \<lparr>typeInfoOrMeta_' = 8192, count_' = 10\<rparr>]\<rparr>"
      and tq' = "\<lparr>producer_' = \<lparr>root_' = 64, last_' = 64, size_' = 1,
             allocator_' = \<lparr>responses = [], requests = [(72, 8)]\<rparr>\<rparr>\<rparr>"]
    CreateArray_example
  obtain node p' where 2:
      "Producer_Insert lp64_factory 64
        (Map.empty, producer_' (new_thread_queue [64])) = Inr (node, [64 \<mapsto> 0], p')"
      "\<lparr>producer_' = \<lparr>root_' = 64, last_' = 64, size_' = 1,
             allocator_' = \<lparr>responses = [], requests = [(72, 8)]\<rparr>\<rparr>\<rparr>
         = (new_thread_queue [64])\<lparr>producer_' := p'\<rparr>"
      "Data lp64_factory node = Inr (80 - offsetof_HeapArrayHeader_array lp64_factory)"
    unfolding a10 by auto
  have o: "80 - offsetof_HeapArrayHeader_array lp64_factory = 72"
    by (simp add: lp64_factory_def)
  have p: "producer_' (new_thread_queue [64]) = new_producer [64]"
    by (simp add: new_thread_queue_def)
  from 2(2) have p': "p' = \<lparr>root_' = 64, last_' = 64, size_' = 1,
             allocator_' = \<lparr>responses = [], requests = [(72, 8)]\<rparr>\<rparr>"
    by (simp add: new_thread_queue_def)
  have 3: "\<exists>node h' om' p'.
      CreateArray lp64_factory 8192 10 (Map.empty, empty_memory, new_thread_queue [64])
        = Inr (80, h', om', \<lparr>producer_' = p'\<rparr>) \<and>
      Producer_Insert lp64_factory 64 (Map.empty, new_producer [64]) = Inr (node, h', p') \<and>
      Data lp64_factory node = Inr 72 \<and>
      header_at om' 80 = Some (Arr \<lparr>typeInfoOrMeta_' = 8192, count_' = 10\<rparr>)"
    apply (rule exI [of _ node])
    apply (rule exI [of _ "[64 \<mapsto> 0]"])
    apply (rule exI [of _ "\<lparr>gcData_at = [72 \<mapsto> \<lparr>color_' = kWhite\<rparr>],
           header_at = [80 \<mapsto> Arr \<lparr>typeInfoOrMeta_' = 8192, count_' = 10\<rparr>]\<rparr>"])
    apply (rule exI [of _ p'])
    using 2(1,3) CreateArray_example
    apply (simp add: o p p')
    done
  from v l n b a 1 a10 3 show ?thesis by blast
qed

text \<open>
  C5 as stated fails: the header in the sum is not the array header. On a 64-bit target
  the array header has 16 bytes and the heap array header 24; for 10 elements of 4 bytes
  \<open>CreateArray\<close> asks for 64 bytes of data (a node of 72 bytes), where the size of the
  array header plus the members, rounded up to 8, is 56.
\<close>

theorem CreateArray_size_counterexample:
  "ArrayAllocatedDataSize lp64_factory 8192 10 = Inr 64 \<and>
   spec_array_data_size (unat (sizeof_ArrayHeader lp64_factory))
     (sint (instanceSize_' (type_infos lp64_factory 8192))) (unat (10 :: 32 word))
     (unat (kObjectAlignment lp64_factory)) = 56 \<and>
   CreateArray lp64_factory 8192 10 (Map.empty, empty_memory, new_thread_queue [64]) =
     Inr (80, [64 \<mapsto> 0],
          \<lparr>gcData_at = [72 \<mapsto> \<lparr>color_' = kWhite\<rparr>],
           header_at = [80 \<mapsto> Arr \<lparr>typeInfoOrMeta_' = 8192, count_' = 10\<rparr>]\<rparr>,
          \<lparr>producer_' = \<lparr>root_' = 64, last_' = 64, size_' = 1,
             allocator_' = \<lparr>responses = [], requests = [(72, 8)]\<rparr>\<rparr>\<rparr>)"
proof -
  have 1: "ArrayAllocatedDataSize lp64_factory 8192 10 = Inr 64"
    by (simp add: ArrayAllocatedDataSize_def lp64_factory_def kObjectAlignment_def AlignUp_def)
  have 2: "spec_array_data_size (unat (sizeof_ArrayHeader lp64_factory))
     (sint (instanceSize_' (type_infos lp64_factory 8192))) (unat (10 :: 32 word))
     (unat (kObjectAlignment lp64_factory)) = 56"
    by (simp add: spec_array_data_size_def round_up_def lp64_factory_def kObjectAlignment_def)
  from 1 2 CreateArray_example show ?thesis by simp
qed

end
